theory Spec2Isabelle
  imports Main
begin

section \<open>The shared state of spackler.go\<close>

text \<open>
  A \<^verbatim>\<open>Caddy\<close> holds five reference fields and one value field. A reference is an
  address in the store of its type; \<^verbatim>\<open>*Caddy\<close> itself is an address in the heap of
  Caddy structs. The references built by \<^verbatim>\<open>NewCaddy\<close> and \<^verbatim>\<open>copy\<close> are never nil, and
  the model has no nil reference: a pointer is \<open>valid\<close> when it names a struct of the
  heap, and the theorems are about valid pointers. \<^verbatim>\<open>time.Duration\<close> and the WaitGroup
  counter are integers; their machine bounds play no part here.
\<close>

type_synonym ref = nat

record Caddy =
  o_once :: ref
  wg :: ref
  stopChan :: ref
  sigChan :: ref
  notifyDefault :: ref
  isTopLevel :: bool

datatype error = ErrStopping

datatype os_signal = SIGINT | SIGTERM | SIG nat

text \<open>
  Goroutines the package starts. The closure of \<^verbatim>\<open>listen\<close> captures \<^verbatim>\<open>c\<close>; the closure of
  \<^verbatim>\<open>Go\<close> captures \<^verbatim>\<open>c\<close>, \<^verbatim>\<open>f\<close> and \<^verbatim>\<open>c2\<close>. Both defer \<^verbatim>\<open>c.wg.Done()\<close> first. A program point
  is where the goroutine stands: at the receive from sigChan, at the close of stopChan,
  inside the user's function, running its deferred call (after a normal return or while
  panicking), or ended. A goroutine that ends panicking terminates the process.
\<close>

datatype exit_mode = Normally | Panicking

datatype pc = AtReceive | AtClose | InFn | Unwinding exit_mode | Ended exit_mode

datatype 'f closure = ListenClosure | GoClosure 'f ref

record 'f goroutine =
  g_caddy :: ref
  g_code :: "'f closure"
  g_pc :: pc

text \<open>
  A call of \<^verbatim>\<open>Looper\<close> that is inside its \<^verbatim>\<open>for\<close> loop: at the outer select, at the inner
  select after a tick, inside \<^verbatim>\<open>f()\<close>, returned, or unwound by a panic of \<^verbatim>\<open>f\<close>.
  \<^verbatim>\<open>l_tick\<close> says that the ticker's channel (capacity one) holds a tick; the closed channel
  of interval zero is always ready.
\<close>

datatype lpc = AtSelect | AtRecheck | InLoopFn | Returned | Unwound

record 'f looper =
  l_caddy :: ref
  l_interval :: int
  l_fn :: 'f
  l_tick :: bool
  l_pc :: lpc

text \<open>
  A call of \<^verbatim>\<open>Go\<close> that has come back from \<^verbatim>\<open>c.listen()\<close>: it stands before the select on
  stopChan, or past it with the Caddy \<open>c2\<close> for the new goroutine and before
  \<^verbatim>\<open>c.wg.Add(1)\<close>, or it has returned its error (None is nil).
\<close>

datatype cpc = AtGoSelect | AtGoAdd ref | GoReturned "error option"

record 'f call =
  k_caddy :: ref
  k_fn :: 'f
  k_pc :: cpc

text \<open>
  The world: the heap of Caddy structs, one store per reference type (a \<^verbatim>\<open>sync.Once\<close> is
  its done flag, a \<^verbatim>\<open>sync.WaitGroup\<close> its counter, an unbuffered channel whether it is
  closed), the channels registered with \<^verbatim>\<open>signal.Notify\<close>, the goroutines started by the
  package, the calls of \<^verbatim>\<open>Go\<close> and of \<^verbatim>\<open>Looper\<close> under way, and whether an unrecovered panic
  has terminated the process. Goroutines, calls and loopers are never removed, so an index
  names the same one for ever.
\<close>

record 'f world =
  caddies :: "Caddy list"
  onces :: "ref \<Rightarrow> bool"
  wgs :: "ref \<Rightarrow> int"
  stopChans :: "ref \<Rightarrow> bool"
  sigChans :: "ref \<Rightarrow> bool"
  boolCells :: "ref \<Rightarrow> bool"
  notified :: "(ref \<times> os_signal) list"
  goroutines :: "'f goroutine list"
  calls :: "'f call list"
  loopers :: "'f looper list"
  fresh :: ref
  dead :: bool

definition init :: "'f world" where
  "init = \<lparr>caddies = [], onces = (\<lambda>_. False), wgs = (\<lambda>_. 0), stopChans = (\<lambda>_. False),
     sigChans = (\<lambda>_. False), boolCells = (\<lambda>_. False), notified = [], goroutines = [],
     calls = [], loopers = [], fresh = 0, dead = False\<rparr>"

definition deref :: "'f world \<Rightarrow> ref \<Rightarrow> Caddy" where
  "deref s c = caddies s ! c"

definition valid :: "'f world \<Rightarrow> ref \<Rightarrow> bool" where
  "valid s c = (c < length (caddies s))"

section \<open>The operations\<close>

text \<open>\<^verbatim>\<open>NewCaddy\<close>: five fresh cells, one new root struct; returns its address.\<close>

definition NewCaddy :: "bool \<Rightarrow> 'f world \<Rightarrow> ref \<times> 'f world" where
  "NewCaddy stopOnOS s =
     (let n = fresh s;
          c = \<lparr>o_once = n, wg = n, stopChan = n, sigChan = n, notifyDefault = n,
               isTopLevel = True\<rparr>
      in (length (caddies s),
          s\<lparr>caddies := caddies s @ [c],
            onces := (onces s)(n := False),
            wgs := (wgs s)(n := 0),
            stopChans := (stopChans s)(n := False),
            sigChans := (sigChans s)(n := False),
            boolCells := (boolCells s)(n := stopOnOS),
            fresh := Suc n\<rparr>))"

text \<open>\<^verbatim>\<open>copy\<close>: a new struct with the caller's five references and isTopLevel false.\<close>

definition copy :: "ref \<Rightarrow> 'f world \<Rightarrow> ref \<times> 'f world" where
  "copy c s =
     (let c2 = \<lparr>o_once = o_once (deref s c), wg = wg (deref s c),
                stopChan = stopChan (deref s c), sigChan = sigChan (deref s c),
                notifyDefault = notifyDefault (deref s c), isTopLevel = False\<rparr>
      in (length (caddies s), s\<lparr>caddies := caddies s @ [c2]\<rparr>))"

text \<open>
  \<^verbatim>\<open>wg.Add(delta)\<close> adds to the counter. (The runtime panics when the sum is negative; with
  delta 1 that needs a counter already negative, which ends the process where it arises,
  in \<open>Done\<close> below.) \<^verbatim>\<open>signal.Notify(ch, SIGINT, SIGTERM)\<close> registers the channel.
\<close>

definition wg_Add :: "ref \<Rightarrow> int \<Rightarrow> 'f world \<Rightarrow> 'f world" where
  "wg_Add w delta s = s\<lparr>wgs := (wgs s)(w := wgs s w + delta)\<rparr>"

definition signal_Notify :: "ref \<Rightarrow> os_signal list \<Rightarrow> 'f world \<Rightarrow> 'f world" where
  "signal_Notify ch sigs s = s\<lparr>notified := notified s @ map (Pair ch) sigs\<rparr>"

definition go_stmt :: "'f goroutine \<Rightarrow> 'f world \<Rightarrow> 'f world" where
  "go_stmt g s = s\<lparr>goroutines := goroutines s @ [g]\<rparr>"

text \<open>
  \<^verbatim>\<open>listen\<close>: the body runs under \<^verbatim>\<open>c.o.Do\<close>, so only when the Once is not yet done, and
  the Once is done when the body has returned. A second caller of \<^verbatim>\<open>Do\<close> waits until the
  first has returned, and the body reads nothing that another goroutine writes, so the
  call is one step.
\<close>

definition listen :: "ref \<Rightarrow> 'f world \<Rightarrow> 'f world" where
  "listen c s =
     (if onces s (o_once (deref s c)) then s
      else
        let s1 = (if boolCells s (notifyDefault (deref s c))
                  then signal_Notify (sigChan (deref s c)) [SIGINT, SIGTERM] s else s);
            s2 = wg_Add (wg (deref s1 c)) 1 s1;
            s3 = go_stmt \<lparr>g_caddy = c, g_code = ListenClosure, g_pc = AtReceive\<rparr> s2
        in s3\<lparr>onces := (onces s3)(o_once (deref s3 c) := True)\<rparr>)"

text \<open>
  \<^verbatim>\<open>Go\<close> after \<^verbatim>\<open>c.listen()\<close>, in its two parts. \<open>Go_admit\<close> is \<^verbatim>\<open>c2 := c\<close> and, for a
  top-level Caddy, the non-blocking read of stopChan (the error is returned when it is
  closed) and the copy; it gives the error or \<open>c2\<close>. \<open>Go_start\<close> is \<^verbatim>\<open>c.wg.Add(1)\<close> and the go
  statement. Other goroutines run between \<^verbatim>\<open>listen\<close>, the read and the \<^verbatim>\<open>Add\<close>: the steps
  below take the three one by one. The go statement stays with the \<^verbatim>\<open>Add\<close>: it writes no
  shared state, and the goroutine it starts takes its steps afterwards, one by one.
\<close>

definition Go_admit :: "ref \<Rightarrow> 'f world \<Rightarrow> (error + ref) \<times> 'f world" where
  "Go_admit c s =
     (if isTopLevel (deref s c) then
        (if stopChans s (stopChan (deref s c)) then (Inl ErrStopping, s)
         else (Inr (fst (copy c s)), snd (copy c s)))
      else (Inr c, s))"

definition Go_start :: "ref \<Rightarrow> 'f \<Rightarrow> ref \<Rightarrow> 'f world \<Rightarrow> 'f world" where
  "Go_start c f c2 s =
     go_stmt \<lparr>g_caddy = c, g_code = GoClosure f c2, g_pc = InFn\<rparr> (wg_Add (wg (deref s c)) 1 s)"

text \<open>
  \<^verbatim>\<open>Go\<close> as one whole, for a call during which no other goroutine takes a step: the
  returned error (None is nil) and the world after the call.
\<close>

definition Go :: "ref \<Rightarrow> 'f \<Rightarrow> 'f world \<Rightarrow> error option \<times> 'f world" where
  "Go c f s =
     (case Go_admit c (listen c s) of
        (Inl e, s2) \<Rightarrow> (Some e, s2)
      | (Inr c2, s2) \<Rightarrow> (None, Go_start c f c2 s2))"

text \<open>
  What a call does to its caller: it completes, it blocks (the world is as it was and the
  call can be tried again when the world has changed), or it panics. \<open>Completes\<close> and
  \<open>Panics\<close> carry the world the call has left.
\<close>

datatype 'a outcome = Completes 'a | Blocks | Panics 'a

text \<open>
  The only receive from sigChan in the package is the listener's. A listener stands at
  its receive on channel \<open>ch\<close> when its closure is at \<open>AtReceive\<close> and its Caddy's sigChan
  is \<open>ch\<close>.
\<close>

definition is_listener :: "'f goroutine \<Rightarrow> bool" where
  "is_listener g = (case g_code g of ListenClosure \<Rightarrow> True | GoClosure f c2 \<Rightarrow> False)"

definition receiving :: "'f world \<Rightarrow> ref \<Rightarrow> 'f goroutine \<Rightarrow> bool" where
  "receiving s ch g =
     (is_listener g \<and> g_pc g = AtReceive \<and> sigChan (deref s (g_caddy g)) = ch)"

fun first_index :: "('a \<Rightarrow> bool) \<Rightarrow> 'a list \<Rightarrow> nat option" where
  "first_index P [] = None"
| "first_index P (x # xs) = (if P x then Some 0 else map_option Suc (first_index P xs))"

definition set_pc :: "nat \<Rightarrow> pc \<Rightarrow> 'f world \<Rightarrow> 'f world" where
  "set_pc i p s = s\<lparr>goroutines := (goroutines s)[i := (goroutines s ! i)\<lparr>g_pc := p\<rparr>]\<rparr>"

text \<open>
  A send on the unbuffered sigChan: it panics on a closed channel, hands the value to a
  waiting receiver (which drops it: \<^verbatim>\<open><-c.sigChan\<close> has no left-hand side), and blocks
  otherwise. \<^verbatim>\<open>Stop\<close> is the send of SIGINT.
\<close>

definition chan_send :: "ref \<Rightarrow> os_signal \<Rightarrow> 'f world \<Rightarrow> 'f world outcome" where
  "chan_send ch v s =
     (if sigChans s ch then Panics s
      else case first_index (receiving s ch) (goroutines s) of
             None \<Rightarrow> Blocks
           | Some i \<Rightarrow> Completes (set_pc i AtClose s))"

definition chan_close :: "ref \<Rightarrow> 'f world \<Rightarrow> 'f world outcome" where
  "chan_close ch s =
     (if sigChans s ch then Panics s else Completes (s\<lparr>sigChans := (sigChans s)(ch := True)\<rparr>))"

definition SigChan :: "'f world \<Rightarrow> ref \<Rightarrow> ref" where
  "SigChan s c = sigChan (deref s c)"

definition Stopping :: "'f world \<Rightarrow> ref \<Rightarrow> ref" where
  "Stopping s c = stopChan (deref s c)"

definition Stop :: "ref \<Rightarrow> 'f world \<Rightarrow> 'f world outcome" where
  "Stop c s = chan_send (sigChan (deref s c)) SIGINT s"

definition Wait :: "ref \<Rightarrow> 'f world \<Rightarrow> 'f world outcome" where
  "Wait c s = (if wgs s (wg (deref s c)) = 0 then Completes s else Blocks)"

text \<open>
  \<^verbatim>\<open>Looper\<close> up to its loop: listen, the tick channel (a closed channel for interval zero,
  else \<^verbatim>\<open>time.NewTicker\<close>, which panics on a duration below one), and the first call of
  \<^verbatim>\<open>f\<close> when runImmediately. \<open>Completes\<close> here means that the call stands inside \<^verbatim>\<open>f()\<close>
  or at the select of the loop; the loop itself runs by the steps below.
\<close>

definition NewTicker_panics :: "int \<Rightarrow> bool" where
  "NewTicker_panics d = (d < 1)"

definition Looper :: "ref \<Rightarrow> int \<Rightarrow> bool \<Rightarrow> 'f \<Rightarrow> 'f world \<Rightarrow> 'f world outcome" where
  "Looper c interval runImmediately f s =
     (let s1 = listen c s in
      if 0 \<noteq> interval \<and> NewTicker_panics interval then Panics s1
      else Completes (s1\<lparr>loopers := loopers s1 @
             [\<lparr>l_caddy = c, l_interval = interval, l_fn = f, l_tick = False,
               l_pc = (if runImmediately then InLoopFn else AtSelect)\<rparr>]\<rparr>))"

section \<open>Steps of the goroutines and of the loop\<close>

text \<open>
  The listener's closure: \<^verbatim>\<open>defer c.wg.Done(); <-c.sigChan; close(c.stopChan)\<close>. Its
  receive completes by a sender's hand-over (in \<open>chan_send\<close>) or, here, on a closed
  channel. Closing a closed channel panics.
\<close>

definition listener_receive :: "nat \<Rightarrow> 'f world \<Rightarrow> 'f world option" where
  "listener_receive i s =
     (if i < length (goroutines s) \<and> is_listener (goroutines s ! i)
         \<and> g_pc (goroutines s ! i) = AtReceive
         \<and> sigChans s (sigChan (deref s (g_caddy (goroutines s ! i))))
      then Some (set_pc i AtClose s) else None)"

definition listener_close :: "nat \<Rightarrow> 'f world \<Rightarrow> 'f world option" where
  "listener_close i s =
     (if i < length (goroutines s) \<and> is_listener (goroutines s ! i)
         \<and> g_pc (goroutines s ! i) = AtClose
      then
        let ch = stopChan (deref s (g_caddy (goroutines s ! i))) in
        if stopChans s ch then Some (set_pc i (Unwinding Panicking) s)
        else Some (set_pc i (Unwinding Normally) (s\<lparr>stopChans := (stopChans s)(ch := True)\<rparr>))
      else None)"

text \<open>
  The closure of \<^verbatim>\<open>Go\<close>: \<^verbatim>\<open>defer c.wg.Done(); f(c2)\<close>. What \<^verbatim>\<open>f\<close> does is the caller's code:
  its calls into the package are steps of their own, and it ends by returning or by
  panicking.
\<close>

definition fn_ends :: "exit_mode \<Rightarrow> nat \<Rightarrow> 'f world \<Rightarrow> 'f world option" where
  "fn_ends m i s =
     (if i < length (goroutines s) \<and> \<not> is_listener (goroutines s ! i)
         \<and> g_pc (goroutines s ! i) = InFn
      then Some (set_pc i (Unwinding m) s) else None)"

text \<open>
  The deferred \<^verbatim>\<open>c.wg.Done()\<close>, which is \<^verbatim>\<open>Add(-1)\<close> and panics on a negative counter. It
  runs on a normal return and while panicking alike; a goroutine that ends panicking
  terminates the process.
\<close>

definition run_deferred :: "nat \<Rightarrow> 'f world \<Rightarrow> 'f world option" where
  "run_deferred i s =
     (if i < length (goroutines s) then
        case g_pc (goroutines s ! i) of
          Unwinding m \<Rightarrow>
            let w = wg (deref s (g_caddy (goroutines s ! i)));
                s1 = wg_Add w (- 1) s;
                m' = (if wgs s1 w < 0 then Panicking else m)
            in Some ((set_pc i (Ended m') s1)\<lparr>dead := (m' = Panicking)\<rparr>)
        | _ \<Rightarrow> None
      else None)"

text \<open>
  \<^verbatim>\<open>os/signal\<close> delivers a signal to a registered channel by a send that never blocks: the
  signal is dropped when no receiver waits. On a closed channel that send panics in the
  runtime's own goroutine.
\<close>

definition signal_deliver :: "ref \<Rightarrow> os_signal \<Rightarrow> 'f world \<Rightarrow> 'f world option" where
  "signal_deliver ch v s =
     (if (ch, v) \<in> set (notified s) then
        case chan_send ch v s of
          Completes s' \<Rightarrow> Some s'
        | Blocks \<Rightarrow> Some s
        | Panics s' \<Rightarrow> Some (s'\<lparr>dead := True\<rparr>)
      else None)"

text \<open>
  The loop of \<^verbatim>\<open>Looper\<close>. The outer select takes the tick when one is ready and the stop
  when stopChan is closed (either, when both are); after a tick the inner select reads
  stopChan without blocking and returns when it is closed, else \<^verbatim>\<open>f()\<close> runs. The only
  \<^verbatim>\<open>return\<close> statements are the two reads of stopChan.
\<close>

definition stop_fired :: "'f world \<Rightarrow> ref \<Rightarrow> bool" where
  "stop_fired s c = stopChans s (stopChan (deref s c))"

definition set_lpc :: "nat \<Rightarrow> lpc \<Rightarrow> 'f world \<Rightarrow> 'f world" where
  "set_lpc i p s = s\<lparr>loopers := (loopers s)[i := (loopers s ! i)\<lparr>l_pc := p\<rparr>]\<rparr>"

definition set_tick :: "nat \<Rightarrow> bool \<Rightarrow> 'f world \<Rightarrow> 'f world" where
  "set_tick i b s = s\<lparr>loopers := (loopers s)[i := (loopers s ! i)\<lparr>l_tick := b\<rparr>]\<rparr>"

definition tick_ready :: "'f looper \<Rightarrow> bool" where
  "tick_ready l = (l_interval l = 0 \<or> l_tick l)"

definition ticker_fires :: "nat \<Rightarrow> 'f world \<Rightarrow> 'f world option" where
  "ticker_fires i s =
     (if i < length (loopers s) \<and> l_interval (loopers s ! i) \<noteq> 0
      then Some (set_tick i True s) else None)"

definition select_tick :: "nat \<Rightarrow> 'f world \<Rightarrow> 'f world option" where
  "select_tick i s =
     (if i < length (loopers s) \<and> l_pc (loopers s ! i) = AtSelect
         \<and> tick_ready (loopers s ! i)
      then Some (set_lpc i AtRecheck (set_tick i False s)) else None)"

definition select_stop :: "nat \<Rightarrow> 'f world \<Rightarrow> 'f world option" where
  "select_stop i s =
     (if i < length (loopers s) \<and> l_pc (loopers s ! i) = AtSelect
         \<and> stop_fired s (l_caddy (loopers s ! i))
      then Some (set_lpc i Returned s) else None)"

definition recheck :: "nat \<Rightarrow> 'f world \<Rightarrow> 'f world option" where
  "recheck i s =
     (if i < length (loopers s) \<and> l_pc (loopers s ! i) = AtRecheck
      then Some (set_lpc i (if stop_fired s (l_caddy (loopers s ! i)) then Returned
                            else InLoopFn) s)
      else None)"

definition loop_fn_ends :: "exit_mode \<Rightarrow> nat \<Rightarrow> 'f world \<Rightarrow> 'f world option" where
  "loop_fn_ends m i s =
     (if i < length (loopers s) \<and> l_pc (loopers s ! i) = InLoopFn
      then Some (set_lpc i (case m of Normally \<Rightarrow> AtSelect | Panicking \<Rightarrow> Unwound) s)
      else None)"

text \<open>
  The steps of a call of \<^verbatim>\<open>Go\<close>: the call begins with \<^verbatim>\<open>c.listen()\<close>, then takes the select
  (and the copy), then \<^verbatim>\<open>Add(1)\<close> with the go statement and \<^verbatim>\<open>return nil\<close>.
\<close>

definition set_cpc :: "nat \<Rightarrow> cpc \<Rightarrow> 'f world \<Rightarrow> 'f world" where
  "set_cpc k p s = s\<lparr>calls := (calls s)[k := (calls s ! k)\<lparr>k_pc := p\<rparr>]\<rparr>"

definition go_begin :: "ref \<Rightarrow> 'f \<Rightarrow> 'f world \<Rightarrow> 'f world" where
  "go_begin c f s =
     (let s1 = listen c s
      in s1\<lparr>calls := calls s1 @ [\<lparr>k_caddy = c, k_fn = f, k_pc = AtGoSelect\<rparr>]\<rparr>)"

definition go_admit :: "nat \<Rightarrow> 'f world \<Rightarrow> 'f world option" where
  "go_admit k s =
     (if k < length (calls s) \<and> k_pc (calls s ! k) = AtGoSelect then
        case Go_admit (k_caddy (calls s ! k)) s of
          (Inl e, s2) \<Rightarrow> Some (set_cpc k (GoReturned (Some e)) s2)
        | (Inr c2, s2) \<Rightarrow> Some (set_cpc k (AtGoAdd c2) s2)
      else None)"

definition go_start :: "nat \<Rightarrow> 'f world \<Rightarrow> 'f world option" where
  "go_start k s =
     (if k < length (calls s) then
        case k_pc (calls s ! k) of
          AtGoAdd c2 \<Rightarrow>
            Some (set_cpc k (GoReturned None)
                    (Go_start (k_caddy (calls s ! k)) (k_fn (calls s ! k)) c2 s))
        | _ \<Rightarrow> None
      else None)"

text \<open>
  One step of the whole program: a call into the package by any goroutine that holds a
  pointer to a Caddy, a write into or a close of the channel that \<^verbatim>\<open>SigChan\<close> hands out,
  a signal from the operating system, or the next statement of a goroutine or of a loop.
  \<open>None\<close> means that the step cannot be taken now: the caller is blocked, the pointer or
  index names nothing, or the process has terminated. A panic of a call unwinds into the
  caller's own code, which the model does not follow. The steps interleave in any order;
  nothing is assumed about the scheduler. \<^verbatim>\<open>listen\<close> is one step, since \<^verbatim>\<open>sync.Once\<close> lets one
  caller at a time through it; a call of \<^verbatim>\<open>Go\<close> is the three steps above; \<^verbatim>\<open>Looper\<close> reads
  nothing shared between \<^verbatim>\<open>listen\<close> and its first select, so its way there is one step.
\<close>

datatype 'f event =
    CallNewCaddy bool
  | CallGo ref 'f
  | GoAdmit nat
  | GoStart nat
  | CallStop ref
  | CallWait ref
  | CallLooper ref int bool 'f
  | SendSig ref os_signal
  | CloseSig ref
  | Deliver ref os_signal
  | Receive nat
  | CloseStop nat
  | FnEnds exit_mode nat
  | RunDeferred nat
  | Tick nat
  | SelectTick nat
  | SelectStop nat
  | Recheck nat
  | LoopFnEnds exit_mode nat

fun resume :: "'a outcome \<Rightarrow> 'a option" where
  "resume (Completes s) = Some s"
| "resume Blocks = None"
| "resume (Panics s) = Some s"

fun perform :: "'f event \<Rightarrow> 'f world \<Rightarrow> 'f world option" where
  "perform (CallNewCaddy b) s = Some (snd (NewCaddy b s))"
| "perform (CallGo c f) s = (if valid s c then Some (go_begin c f s) else None)"
| "perform (GoAdmit k) s = go_admit k s"
| "perform (GoStart k) s = go_start k s"
| "perform (CallStop c) s = (if valid s c then resume (Stop c s) else None)"
| "perform (CallWait c) s = (if valid s c then resume (Wait c s) else None)"
| "perform (CallLooper c d r f) s = (if valid s c then resume (Looper c d r f s) else None)"
| "perform (SendSig c v) s = (if valid s c then resume (chan_send (SigChan s c) v s) else None)"
| "perform (CloseSig c) s = (if valid s c then resume (chan_close (SigChan s c) s) else None)"
| "perform (Deliver ch v) s = signal_deliver ch v s"
| "perform (Receive i) s = listener_receive i s"
| "perform (CloseStop i) s = listener_close i s"
| "perform (FnEnds m i) s = fn_ends m i s"
| "perform (RunDeferred i) s = run_deferred i s"
| "perform (Tick i) s = ticker_fires i s"
| "perform (SelectTick i) s = select_tick i s"
| "perform (SelectStop i) s = select_stop i s"
| "perform (Recheck i) s = recheck i s"
| "perform (LoopFnEnds m i) s = loop_fn_ends m i s"

definition step :: "'f event \<Rightarrow> 'f world \<Rightarrow> 'f world option" where
  "step e s = (if dead s then None else perform e s)"

fun run :: "'f event list \<Rightarrow> 'f world \<Rightarrow> 'f world option" where
  "run [] s = Some s"
| "run (e # es) s = (case step e s of None \<Rightarrow> None | Some s' \<Rightarrow> run es s')"

definition reachable :: "'f world \<Rightarrow> bool" where
  "reachable s = (\<exists>es. run es init = Some s)"

section \<open>Runs, and what is counted along them\<close>

text \<open>
  The goroutines that run a user's function; the goroutines a WaitGroup still waits for
  (started with \<^verbatim>\<open>Add(1)\<close> on it and not yet past their deferred \<^verbatim>\<open>Done\<close>); the listeners
  started under a Once.
\<close>

definition tasks :: "'f world \<Rightarrow> 'f goroutine list" where
  "tasks s = filter (\<lambda>g. \<not> is_listener g) (goroutines s)"

definition live :: "'f goroutine \<Rightarrow> bool" where
  "live g = (case g_pc g of Ended m \<Rightarrow> False | _ \<Rightarrow> True)"

definition pending :: "'f world \<Rightarrow> ref \<Rightarrow> 'f goroutine list" where
  "pending s w = filter (\<lambda>g. live g \<and> wg (deref s (g_caddy g)) = w) (goroutines s)"

definition listeners :: "'f world \<Rightarrow> ref \<Rightarrow> 'f goroutine list" where
  "listeners s n =
     filter (\<lambda>g. is_listener g \<and> o_once (deref s (g_caddy g)) = n) (goroutines s)"

text \<open>
  How often the loop of looper \<open>i\<close> starts \<^verbatim>\<open>f()\<close> along a run: the steps of its inner select
  that go on to \<^verbatim>\<open>f()\<close>.
\<close>

fun fn_starts :: "nat \<Rightarrow> 'f event list \<Rightarrow> 'f world \<Rightarrow> nat" where
  "fn_starts i [] s = 0"
| "fn_starts i (e # es) s =
     (case step e s of
        None \<Rightarrow> 0
      | Some s' \<Rightarrow>
          (if e = Recheck i \<and> l_pc (loopers s' ! i) = InLoopFn then 1 else 0)
            + fn_starts i es s')"

section \<open>The invariant of the reachable worlds\<close>

text \<open>
  The cells of one coordinator are allocated together, so the five references of a Caddy
  agree; every pointer held by a goroutine or a loop names a Caddy of the heap.
\<close>

definition coherent :: "Caddy \<Rightarrow> bool" where
  "coherent c = (wg c = o_once c \<and> stopChan c = o_once c \<and> sigChan c = o_once c
                 \<and> notifyDefault c = o_once c)"

definition inv_heap :: "'f world \<Rightarrow> bool" where
  "inv_heap s =
     (list_all (\<lambda>c. coherent c \<and> o_once c < fresh s) (caddies s)
      \<and> list_all (\<lambda>g. g_caddy g < length (caddies s)) (goroutines s)
      \<and> list_all (\<lambda>l. l_caddy l < length (caddies s)) (loopers s))"

definition inv_pending :: "'f world \<Rightarrow> bool" where
  "inv_pending s = (\<forall>w. wgs s w = int (length (pending s w)))"

definition inv_once :: "'f world \<Rightarrow> bool" where
  "inv_once s = (\<forall>n. length (listeners s n) = (if onces s n then 1 else 0))"

text \<open>
  A listener has closed stopChan exactly when it is past its close, and it never panics.
\<close>

definition listener_ok :: "'f world \<Rightarrow> 'f goroutine \<Rightarrow> bool" where
  "listener_ok s g =
     (case g_pc g of
        AtReceive \<Rightarrow> \<not> stop_fired s (g_caddy g)
      | AtClose \<Rightarrow> \<not> stop_fired s (g_caddy g)
      | InFn \<Rightarrow> False
      | Unwinding m \<Rightarrow> stop_fired s (g_caddy g) \<and> m = Normally
      | Ended m \<Rightarrow> stop_fired s (g_caddy g) \<and> m = Normally)"

definition inv_stop :: "'f world \<Rightarrow> bool" where
  "inv_stop s =
     (list_all (\<lambda>g. \<not> is_listener g \<or> listener_ok s g) (goroutines s)
      \<and> (\<forall>n. \<not> stopChans s n \<or> onces s n))"

definition wf_world :: "'f world \<Rightarrow> bool" where
  "wf_world s = (inv_heap s \<and> inv_pending s \<and> inv_once s \<and> inv_stop s)"

text \<open>Every call of \<^verbatim>\<open>Go\<close> under way is on a Caddy of the heap.\<close>

definition inv_calls :: "'f world \<Rightarrow> bool" where
  "inv_calls s = list_all (\<lambda>k. k_caddy k < length (caddies s)) (calls s)"

text \<open>Whether a listener stands at its receive on channel \<open>ch\<close>.\<close>

definition listening :: "'f world \<Rightarrow> ref \<Rightarrow> bool" where
  "listening s ch = list_ex (receiving s ch) (goroutines s)"

text \<open>
  Two worlds of the package's tests (\<^verbatim>\<open>Test_While_Stopping\<close>): after \<^verbatim>\<open>New(false)\<close> and one
  \<^verbatim>\<open>Go\<close> on the root Caddy, and after a \<^verbatim>\<open>Stop\<close> that the listener has turned into the
  close of stopChan. Function values are named by numbers.
\<close>

definition demo_started :: "nat world" where
  "demo_started = the (run [CallNewCaddy False, CallGo 0 7, GoAdmit 0, GoStart 0] init)"

definition demo_stopped :: "nat world" where
  "demo_stopped = the (run [CallNewCaddy False, CallGo 0 7, GoAdmit 0, GoStart 0, CallStop 0, CloseStop 0] init)"

text \<open>The world of \<open>demo_started\<close> after the task's function has panicked.\<close>

definition demo_panicked :: "nat world" where
  "demo_panicked = the (run [CallNewCaddy False, CallGo 0 7, GoAdmit 0, GoStart 0, FnEnds Panicking 1] init)"

text \<open>
  A world with two coordinators: the first after \<^verbatim>\<open>Go\<close> and a \<^verbatim>\<open>Stop\<close> that its listener has
  received, the second just made by \<^verbatim>\<open>NewCaddy(true)\<close>.
\<close>

definition demo_two :: "nat world" where
  "demo_two = the (run [CallNewCaddy False, CallGo 0 7, GoAdmit 0, GoStart 0, CallStop 0, CallNewCaddy True] init)"

text \<open>
  Worlds of a repeated stop: after \<^verbatim>\<open>Go\<close> and a first \<^verbatim>\<open>Stop\<close>; the same after the listener
  has closed stopChan and ended; and after the first \<^verbatim>\<open>Stop\<close> and a close of the channel
  that \<^verbatim>\<open>SigChan\<close> hands out.
\<close>

definition demo_requested :: "nat world" where
  "demo_requested = the (run [CallNewCaddy False, CallGo 0 7, GoAdmit 0, GoStart 0, CallStop 0] init)"

definition demo_fired :: "nat world" where
  "demo_fired = the (run [CloseStop 0, RunDeferred 0] demo_requested)"

definition demo_closed :: "nat world" where
  "demo_closed = the (run [CallNewCaddy False, CallGo 0 7, GoAdmit 0, GoStart 0, CallStop 0, CloseSig 0] init)"

text \<open>
  Worlds of a loop of interval zero on the root Caddy: the loop at its outer select, and at
  its inner select, each after a \<^verbatim>\<open>Stop\<close> that the listener has turned into the close of
  stopChan. And the world of \<^verbatim>\<open>Test_Looper_Zero_Duration\<close> where the test calls \<^verbatim>\<open>s1.Stop()\<close>:
  the loop runs in a task on its Caddy \<^verbatim>\<open>s2\<close>, \<^verbatim>\<open>f()\<close> has run twice and is running the third
  time, and \<^verbatim>\<open>Stop\<close> has returned while the listener has not yet closed stopChan.
\<close>

definition demo_loop_select :: "nat world" where
  "demo_loop_select =
     the (run [CallNewCaddy False, CallLooper 0 0 False 5, CallStop 0, CloseStop 0] init)"

definition demo_loop_recheck :: "nat world" where
  "demo_loop_recheck =
     the (run [CallNewCaddy False, CallLooper 0 0 False 5, SelectTick 0, CallStop 0, CloseStop 0]
            init)"

definition demo_looping :: "nat world" where
  "demo_looping =
     the (run [CallNewCaddy False, CallGo 0 7, GoAdmit 0, GoStart 0, CallLooper 1 0 False 5,
               SelectTick 0, Recheck 0, LoopFnEnds Normally 0,
               SelectTick 0, Recheck 0, LoopFnEnds Normally 0,
               SelectTick 0, Recheck 0, CallStop 0] init)"

text \<open>
  Worlds of a \<^verbatim>\<open>Go\<close> that meets the stop on its way: the channel of \<^verbatim>\<open>SigChan\<close> closed before
  anything was started, and the same after a \<^verbatim>\<open>Go\<close> whose listener has received and closed
  stopChan before the call came to its select; and a \<^verbatim>\<open>Go\<close> begun after the stop, with the
  task's function returning before the call comes to its select.
\<close>

definition demo_preclosed :: "nat world" where
  "demo_preclosed = the (run [CallNewCaddy False, CloseSig 0] init)"

definition demo_late :: "nat world" where
  "demo_late = the (run [CallGo 0 7, Receive 0, CloseStop 0, GoAdmit 0] demo_preclosed)"

definition demo_refusing :: "nat world" where
  "demo_refusing = the (run [CallGo 0 9, FnEnds Normally 1] demo_stopped)"

text \<open>
  Worlds with the listener at its receive: of a coordinator made by \<^verbatim>\<open>NewCaddy(true)\<close>, whose
  sigChan is registered with \<^verbatim>\<open>signal.Notify\<close>; and of \<^verbatim>\<open>Test_SigChan\<close>, after \<^verbatim>\<open>Go\<close> and the
  close of the channel of \<^verbatim>\<open>SigChan\<close>.
\<close>

definition demo_notified :: "nat world" where
  "demo_notified = the (run [CallNewCaddy True, CallGo 0 7, GoAdmit 0, GoStart 0] init)"

definition demo_sigclosed :: "nat world" where
  "demo_sigclosed =
     the (run [CallNewCaddy False, CallGo 0 7, GoAdmit 0, GoStart 0, CloseSig 0] init)"

text \<open>
  A coordinator on which nothing has been called yet, and the world of \<open>demo_started\<close>
  after a close of the channel of \<^verbatim>\<open>SigChan\<close> has made the listener close stopChan.
\<close>

definition demo_unstarted :: "nat world" where
  "demo_unstarted = the (run [CallNewCaddy False] init)"

definition demo_close_fired :: "nat world" where
  "demo_close_fired = the (run [CloseSig 0, Receive 0, CloseStop 0] demo_started)"

text \<open>
  Worlds with calls of \<^verbatim>\<open>Go\<close> under way: after the stop, two calls on the Caddy of the
  task, one before \<^verbatim>\<open>Add(1)\<close> and one before the select; and the call of \<open>demo_late\<close> before
  its select, the listener that it has started having closed stopChan.
\<close>

definition demo_nonroot_calls :: "nat world" where
  "demo_nonroot_calls = the (run [CallGo 1 8, GoAdmit 1, CallGo 1 9] demo_stopped)"

definition demo_late_select :: "nat world" where
  "demo_late_select = the (run [CallGo 0 7, Receive 0, CloseStop 0] demo_preclosed)"

section \<open>Lists\<close>

lemma length_filter_update_nat:
  "i < length xs \<Longrightarrow>
   length (filter P (xs[i := y])) + (if P (xs ! i) then 1 else 0) =
     length (filter P xs) + (if P y then 1 else 0)"
proof (induction xs arbitrary: i)
  case Nil
  then show ?case by simp
next
  case (Cons x xs)
  show ?case
  proof (cases i)
    case 0
    then show ?thesis by simp
  next
    case (Suc n)
    with Cons.prems have "n < length xs" by simp
    from Cons.IH[OF this] Suc show ?thesis by simp
  qed
qed

lemma length_filter_update:
  "i < length xs \<Longrightarrow>
   int (length (filter P (xs[i := y]))) =
     int (length (filter P xs)) - (if P (xs ! i) then 1 else 0) + (if P y then 1 else 0)"
  using length_filter_update_nat[of i xs P y] by (simp split: if_splits)

lemma filter_unique:
  "length (filter P xs) \<le> 1 \<Longrightarrow> i < length xs \<Longrightarrow> j < length xs \<Longrightarrow> P (xs ! i) \<Longrightarrow> P (xs ! j)
   \<Longrightarrow> i = j"
proof (induction xs arbitrary: i j)
  case Nil
  then show ?case by simp
next
  case (Cons x xs)
  show ?case
  proof (cases "P x")
    case True
    with Cons.prems have e: "filter P xs = []" by simp
    have "i = 0"
    proof (rule ccontr)
      assume "i \<noteq> 0"
      then obtain i' where "i = Suc i'" by (cases i) auto
      with Cons.prems have "xs ! i' \<in> set xs" "P (xs ! i')" by auto
      then have "xs ! i' \<in> set (filter P xs)" by simp
      with e show False by simp
    qed
    moreover have "j = 0"
    proof (rule ccontr)
      assume "j \<noteq> 0"
      then obtain j' where "j = Suc j'" by (cases j) auto
      with Cons.prems have "xs ! j' \<in> set xs" "P (xs ! j')" by auto
      then have "xs ! j' \<in> set (filter P xs)" by simp
      with e show False by simp
    qed
    ultimately show ?thesis by simp
  next
    case False
    with Cons.prems have l: "length (filter P xs) \<le> 1" by simp
    from False Cons.prems obtain i' j' where ij: "i = Suc i'" "j = Suc j'"
      by (cases i; cases j) auto
    with Cons.prems have "i' < length xs" "j' < length xs" "P (xs ! i')" "P (xs ! j')" by auto
    with Cons.IH[OF l] have "i' = j'" by blast
    with ij show ?thesis by simp
  qed
qed

lemma wf_init: "wf_world init"
  by (simp add: wf_world_def inv_heap_def inv_pending_def inv_once_def inv_stop_def init_def
      pending_def listeners_def)

section \<open>The invariant holds in every reachable world\<close>

lemmas prim_defs = listen_def Let_def wg_Add_def go_stmt_def signal_Notify_def deref_def
  copy_def NewCaddy_def set_pc_def set_lpc_def set_tick_def set_cpc_def

lemma Go_unfold:
  "Go c f s =
     (let s1 = listen c s in
      if isTopLevel (deref s1 c) \<and> stopChans s1 (stopChan (deref s1 c))
      then (Some ErrStopping, s1)
      else
        let (c2, s2) = (if isTopLevel (deref s1 c) then copy c s1 else (c, s1));
            s3 = wg_Add (wg (deref s2 c)) 1 s2
        in (None, go_stmt \<lparr>g_caddy = c, g_code = GoClosure f c2, g_pc = InFn\<rparr> s3))"
  by (simp add: Go_def Go_admit_def Go_start_def Let_def case_prod_beta)

lemma heap_caddy:
  "inv_heap s \<Longrightarrow> c < length (caddies s) \<Longrightarrow>
   coherent (caddies s ! c) \<and> o_once (caddies s ! c) < fresh s"
  by (simp add: inv_heap_def list_all_length)

lemma heap_goroutine:
  "inv_heap s \<Longrightarrow> g \<in> set (goroutines s) \<Longrightarrow> g_caddy g < length (caddies s)"
  by (simp add: inv_heap_def list_all_iff)

lemma heap_goroutine_fresh:
  assumes "inv_heap s" and "g \<in> set (goroutines s)"
  shows "o_once (caddies s ! g_caddy g) < fresh s"
    and "wg (caddies s ! g_caddy g) < fresh s"
    and "stopChan (caddies s ! g_caddy g) < fresh s"
  using heap_caddy[OF assms(1) heap_goroutine[OF assms]] by (simp_all add: coherent_def)

lemma fresh_no_goroutine:
  assumes "inv_heap s" and "fresh s \<le> n"
  shows "listeners s n = []" and "pending s n = []"
  using assms(2) heap_goroutine_fresh[OF assms(1)]
  by (fastforce simp: filter_empty_conv listeners_def pending_def deref_def)+

lemma deref_ext:
  "caddies s' = caddies s @ cs \<Longrightarrow> c < length (caddies s) \<Longrightarrow> deref s' c = deref s c"
  by (simp add: deref_def nth_append)

lemma pending_frame:
  assumes "inv_heap s" and "caddies s' = caddies s @ cs" and "goroutines s' = goroutines s"
  shows "pending s' w = pending s w"
  unfolding pending_def assms(3)
  by (rule filter_cong[OF refl]) (simp add: deref_ext[OF assms(2) heap_goroutine[OF assms(1)]])

lemma listeners_frame:
  assumes "inv_heap s" and "caddies s' = caddies s @ cs" and "goroutines s' = goroutines s"
  shows "listeners s' n = listeners s n"
  unfolding listeners_def assms(3)
  by (rule filter_cong[OF refl]) (simp add: deref_ext[OF assms(2) heap_goroutine[OF assms(1)]])

lemma pending_spawn:
  assumes "inv_heap s" and "caddies s' = caddies s @ cs" and "goroutines s' = goroutines s @ [g]"
  shows "pending s' w =
         pending s w @ (if live g \<and> wg (deref s' (g_caddy g)) = w then [g] else [])"
proof -
  have "filter (\<lambda>g. live g \<and> wg (deref s' (g_caddy g)) = w) (goroutines s) = pending s w"
    unfolding pending_def
    by (rule filter_cong[OF refl]) (simp add: deref_ext[OF assms(2) heap_goroutine[OF assms(1)]])
  then show ?thesis by (simp add: pending_def assms(3))
qed

lemma listeners_spawn:
  assumes "inv_heap s" and "caddies s' = caddies s @ cs" and "goroutines s' = goroutines s @ [g]"
  shows "listeners s' n =
         listeners s n @ (if is_listener g \<and> o_once (deref s' (g_caddy g)) = n then [g] else [])"
proof -
  have "filter (\<lambda>g. is_listener g \<and> o_once (deref s' (g_caddy g)) = n) (goroutines s)
        = listeners s n"
    unfolding listeners_def
    by (rule filter_cong[OF refl]) (simp add: deref_ext[OF assms(2) heap_goroutine[OF assms(1)]])
  then show ?thesis by (simp add: listeners_def assms(3))
qed

lemma pending_update:
  assumes "caddies s' = caddies s" and "goroutines s' = (goroutines s)[i := g']"
    and "i < length (goroutines s)" and "g_caddy g' = g_caddy (goroutines s ! i)"
  shows "int (length (pending s' w)) =
         int (length (pending s w))
         - (if live (goroutines s ! i) \<and> wg (deref s (g_caddy g')) = w then 1 else 0)
         + (if live g' \<and> wg (deref s (g_caddy g')) = w then 1 else 0)"
  using length_filter_update[OF assms(3), of "\<lambda>g. live g \<and> wg (deref s (g_caddy g)) = w" g']
  by (simp add: pending_def assms deref_def)

lemma listeners_update:
  assumes "caddies s' = caddies s" and "goroutines s' = (goroutines s)[i := g']"
    and "i < length (goroutines s)" and "g_caddy g' = g_caddy (goroutines s ! i)"
    and "g_code g' = g_code (goroutines s ! i)"
  shows "length (listeners s' n) = length (listeners s n)"
  using length_filter_update_nat[OF assms(3),
      of "\<lambda>g. is_listener g \<and> o_once (deref s (g_caddy g)) = n" g']
  by (simp add: listeners_def assms deref_def is_listener_def)

lemma listener_ok_cong:
  "stop_fired s' (g_caddy g) = stop_fired s (g_caddy g) \<Longrightarrow> listener_ok s' g = listener_ok s g"
  by (simp add: listener_ok_def split: pc.splits)

lemma stop_fired_NewCaddy:
  assumes "inv_heap s" and "c < length (caddies s)"
  shows "stop_fired (snd (NewCaddy b s)) c = stop_fired s c"
  using heap_caddy[OF assms]
  by (auto simp: stop_fired_def NewCaddy_def Let_def deref_def nth_append assms(2) coherent_def)

lemma wf_NewCaddy:
  assumes "wf_world s"
  shows "wf_world (snd (NewCaddy b s))"
proof -
  let ?s' = "snd (NewCaddy b s)"
  from assms have h: "inv_heap s" and p: "inv_pending s" and o: "inv_once s" and t: "inv_stop s"
    by (simp_all add: wf_world_def)
  have c: "caddies ?s' = caddies s @ [\<lparr>o_once = fresh s, wg = fresh s, stopChan = fresh s,
      sigChan = fresh s, notifyDefault = fresh s, isTopLevel = True\<rparr>]"
    and g: "goroutines ?s' = goroutines s"
    by (simp_all add: NewCaddy_def Let_def)
  have h': "inv_heap ?s'"
    using h by (auto simp: inv_heap_def NewCaddy_def Let_def coherent_def list_all_iff)
  have p': "inv_pending ?s'"
    using p fresh_no_goroutine(2)[OF h, of "fresh s"] 
    by (simp add: inv_pending_def pending_frame[OF h c g]) (simp add: NewCaddy_def Let_def)
  have "length (listeners s (fresh s)) = (if onces s (fresh s) then 1 else 0)"
    using o by (simp add: inv_once_def)
  then have nf: "\<not> onces s (fresh s)"
    using fresh_no_goroutine(1)[OF h, of "fresh s"] by (simp split: if_splits)
  have o': "inv_once ?s'"
    using o nf fresh_no_goroutine(1)[OF h, of "fresh s"] 
    by (simp add: inv_once_def listeners_frame[OF h c g]) (simp add: NewCaddy_def Let_def)
  have "listener_ok ?s' x = listener_ok s x" if "x \<in> set (goroutines s)" for x
    using stop_fired_NewCaddy[OF h heap_goroutine[OF h that]] by (rule listener_ok_cong)
  then have t': "inv_stop ?s'"
    using t nf by (auto simp: inv_stop_def list_all_iff g) (auto simp: NewCaddy_def Let_def)
  show ?thesis using h' p' o' t' by (simp add: wf_world_def)
qed

lemma wf_parts:
  "wf_world s \<Longrightarrow> inv_heap s" "wf_world s \<Longrightarrow> inv_pending s"
  "wf_world s \<Longrightarrow> inv_once s" "wf_world s \<Longrightarrow> inv_stop s"
  by (simp_all add: wf_world_def)

lemma views_cong:
  assumes "caddies s' = caddies s" "goroutines s' = goroutines s" "stopChans s' = stopChans s"
  shows "pending s' = pending s" "listeners s' = listeners s" "stop_fired s' = stop_fired s"
    "listener_ok s' = listener_ok s"
  by (auto simp: fun_eq_iff pending_def listeners_def stop_fired_def listener_ok_def deref_def
      assms split: pc.splits)

lemma wf_cong:
  assumes "caddies s' = caddies s" "goroutines s' = goroutines s" "stopChans s' = stopChans s"
    "loopers s' = loopers s" "wgs s' = wgs s" "onces s' = onces s" "fresh s' = fresh s"
  shows "wf_world s' = wf_world s"
  by (simp add: wf_world_def inv_heap_def inv_pending_def inv_once_def inv_stop_def
      views_cong[OF assms(1,2,3)] assms)

lemma wf_loopers:
  assumes "wf_world s" and "list_all (\<lambda>l. l_caddy l < length (caddies s)) ls"
  shows "wf_world (s\<lparr>loopers := ls\<rparr>)"
  using assms views_cong[of "s\<lparr>loopers := ls\<rparr>" s]
  by (simp add: wf_world_def inv_heap_def inv_pending_def inv_once_def inv_stop_def)

lemma stop_fired_frame:
  "caddies s' = caddies s @ cs \<Longrightarrow> stopChans s' = stopChans s \<Longrightarrow> c < length (caddies s) \<Longrightarrow>
   stop_fired s' c = stop_fired s c"
  by (simp add: stop_fired_def deref_ext)

lemma inv_stop_frame:
  assumes "inv_heap s" and "inv_stop s" and "caddies s' = caddies s @ cs"
    and "stopChans s' = stopChans s" and "goroutines s' = goroutines s" and "onces s' = onces s"
  shows "inv_stop s'"
proof -
  have "listener_ok s' x = listener_ok s x" if "x \<in> set (goroutines s)" for x
    using stop_fired_frame[OF assms(3,4) heap_goroutine[OF assms(1) that]]
    by (rule listener_ok_cong)
  then show ?thesis using assms(2) by (auto simp: inv_stop_def list_all_iff assms(4,5,6))
qed

lemma wf_copy:
  assumes "wf_world s" and "valid s c"
  shows "wf_world (snd (copy c s))"
proof -
  let ?s' = "snd (copy c s)"
  note h = wf_parts(1)[OF assms(1)]
  have c: "caddies ?s' = caddies s @ [\<lparr>o_once = o_once (deref s c), wg = wg (deref s c),
                stopChan = stopChan (deref s c), sigChan = sigChan (deref s c),
                notifyDefault = notifyDefault (deref s c), isTopLevel = False\<rparr>]"
    and g: "goroutines ?s' = goroutines s" and st: "stopChans ?s' = stopChans s"
    and oo: "onces ?s' = onces s" and ww: "wgs ?s' = wgs s"
    by (simp_all add: copy_def Let_def)
  have h': "inv_heap ?s'"
    using h heap_caddy[OF h assms(2)[unfolded valid_def]]
    by (auto simp: inv_heap_def copy_def Let_def coherent_def list_all_iff deref_def)
  have p': "inv_pending ?s'"
    using wf_parts(2)[OF assms(1)] by (simp add: inv_pending_def pending_frame[OF h c g] ww)
  have o': "inv_once ?s'"
    using wf_parts(3)[OF assms(1)] by (simp add: inv_once_def listeners_frame[OF h c g] oo)
  have t': "inv_stop ?s'"
    by (rule inv_stop_frame[OF h wf_parts(4)[OF assms(1)] c st g oo])
  show ?thesis using h' p' o' t' by (simp add: wf_world_def)
qed

lemma listen_fields:
  assumes "\<not> onces s (o_once (deref s c))"
  shows "caddies (listen c s) = caddies s"
    and "goroutines (listen c s) =
           goroutines s @ [\<lparr>g_caddy = c, g_code = ListenClosure, g_pc = AtReceive\<rparr>]"
    and "wgs (listen c s) = (wgs s)(wg (deref s c) := wgs s (wg (deref s c)) + 1)"
    and "onces (listen c s) = (onces s)(o_once (deref s c) := True)"
    and "stopChans (listen c s) = stopChans s"
    and "loopers (listen c s) = loopers s"
    and "fresh (listen c s) = fresh s"
  using assms by (simp_all add: prim_defs)

lemma wf_listen:
  assumes "wf_world s" and "valid s c"
  shows "wf_world (listen c s)"
proof (cases "onces s (o_once (deref s c))")
  case True
  then show ?thesis using assms(1) by (simp add: listen_def)
next
  case False
  let ?s' = "listen c s"
  let ?g = "\<lparr>g_caddy = c, g_code = ListenClosure, g_pc = AtReceive\<rparr> :: 'a goroutine"
  note f = listen_fields[OF False]
  note h = wf_parts(1)[OF assms(1)]
  have c0: "caddies ?s' = caddies s @ []" using f(1) by simp
  have d: "deref ?s' x = deref s x" for x by (simp add: deref_def f(1))
  have co: "coherent (deref s c)"
    using heap_caddy[OF h assms(2)[unfolded valid_def]] by (simp add: deref_def)
  have h': "inv_heap ?s'"
    using h assms(2) by (simp add: inv_heap_def f valid_def)
  have p': "inv_pending ?s'"
    using wf_parts(2)[OF assms(1)]
    by (simp add: inv_pending_def pending_spawn[OF h c0 f(2)] d f(3) live_def)
  have o': "inv_once ?s'"
    using wf_parts(3)[OF assms(1)] False
    by (simp add: inv_once_def listeners_spawn[OF h c0 f(2)] d f(4) is_listener_def)
  have nf: "\<not> stop_fired s c"
    using wf_parts(4)[OF assms(1)] False co
    by (auto simp: inv_stop_def stop_fired_def coherent_def)
  have "listener_ok ?s' x = listener_ok s x" for x
    by (rule listener_ok_cong) (simp add: stop_fired_def d f(5))
  then have t': "inv_stop ?s'"
    using wf_parts(4)[OF assms(1)] nf
    by (auto simp: inv_stop_def f(2,4,5) listener_ok_def)
  show ?thesis using h' p' o' t' by (simp add: wf_world_def)
qed

lemma wf_spawn:
  assumes "wf_world s" and "valid s c" and "g_caddy g = c" and "\<not> is_listener g" and "live g"
  shows "wf_world (go_stmt g (wg_Add (wg (deref s c)) 1 s))"
proof -
  let ?s' = "go_stmt g (wg_Add (wg (deref s c)) 1 s)"
  note h = wf_parts(1)[OF assms(1)]
  have c0: "caddies ?s' = caddies s @ []" and g: "goroutines ?s' = goroutines s @ [g]"
    and w: "wgs ?s' = (wgs s)(wg (deref s c) := wgs s (wg (deref s c)) + 1)"
    and r: "onces ?s' = onces s" "stopChans ?s' = stopChans s" "loopers ?s' = loopers s"
           "fresh ?s' = fresh s"
    by (simp_all add: go_stmt_def wg_Add_def)
  have d: "deref ?s' x = deref s x" for x using c0 by (simp add: deref_def)
  have h': "inv_heap ?s'"
    using h assms(2,3) c0 by (simp add: inv_heap_def g r valid_def)
  have p': "inv_pending ?s'"
    using wf_parts(2)[OF assms(1)] assms(3,5)
    by (simp add: inv_pending_def pending_spawn[OF h c0 g] d w)
  have o': "inv_once ?s'"
    using wf_parts(3)[OF assms(1)] assms(4)
    by (simp add: inv_once_def listeners_spawn[OF h c0 g] r)
  have "listener_ok ?s' x = listener_ok s x" for x
    by (rule listener_ok_cong) (simp add: stop_fired_def d r)
  then have t': "inv_stop ?s'"
    using wf_parts(4)[OF assms(1)] assms(4)
    by (auto simp: inv_stop_def g r)
  show ?thesis using h' p' o' t' by (simp add: wf_world_def)
qed

lemma valid_listen: "valid (listen c s) x = valid s x"
  by (simp add: valid_def prim_defs)

lemma wf_Go:
  assumes "wf_world s" and "valid s c"
  shows "wf_world (snd (Go c f s))"
proof -
  let ?s1 = "listen c s"
  have w1: "wf_world ?s1" by (rule wf_listen[OF assms])
  have v1: "valid ?s1 c" using assms(2) by (simp add: valid_listen)
  show ?thesis
  proof (cases "isTopLevel (deref ?s1 c)")
    case False
    then show ?thesis
      using wf_spawn[OF w1 v1, of "\<lparr>g_caddy = c, g_code = GoClosure f c, g_pc = InFn\<rparr>"]
      by (simp add: Go_unfold Let_def is_listener_def live_def)
  next
    case True
    let ?s2 = "snd (copy c ?s1)"
    have w2: "wf_world ?s2" by (rule wf_copy[OF w1 v1])
    have v2: "valid ?s2 c" using v1 by (simp add: valid_def copy_def Let_def)
    have c2: "fst (copy c ?s1) = length (caddies ?s1)" by (simp add: copy_def Let_def)
    show ?thesis
      using True w1
        wf_spawn[OF w2 v2, of "\<lparr>g_caddy = c, g_code = GoClosure f (fst (copy c ?s1)), g_pc = InFn\<rparr>"]
      by (simp add: Go_unfold Let_def is_listener_def live_def case_prod_beta)
  qed
qed

lemma list_all_update:
  "list_all P xs \<Longrightarrow> P y \<Longrightarrow> list_all P (xs[i := y])"
  by (induction xs arbitrary: i) (auto split: nat.splits)

lemma fired_cong:
  assumes "caddies s' = caddies s" "stopChans s' = stopChans s"
  shows "stop_fired s' = stop_fired s" "listener_ok s' = listener_ok s"
  by (auto simp: fun_eq_iff stop_fired_def listener_ok_def deref_def assms split: pc.splits)

lemma set_pc_fields:
  "caddies (set_pc i p s) = caddies s"
  "goroutines (set_pc i p s) = (goroutines s)[i := (goroutines s ! i)\<lparr>g_pc := p\<rparr>]"
  "wgs (set_pc i p s) = wgs s" "onces (set_pc i p s) = onces s"
  "stopChans (set_pc i p s) = stopChans s" "loopers (set_pc i p s) = loopers s"
  "fresh (set_pc i p s) = fresh s" "sigChans (set_pc i p s) = sigChans s"
  "dead (set_pc i p s) = dead s"
  by (simp_all add: set_pc_def)

lemma wf_set_pc_live:
  assumes "wf_world s" and "i < length (goroutines s)" and "live (goroutines s ! i)"
    and "live ((goroutines s ! i)\<lparr>g_pc := p\<rparr>)"
    and "is_listener (goroutines s ! i) \<longrightarrow> listener_ok s ((goroutines s ! i)\<lparr>g_pc := p\<rparr>)"
  shows "wf_world (set_pc i p s)"
proof -
  let ?s' = "set_pc i p s"
  let ?g' = "(goroutines s ! i)\<lparr>g_pc := p\<rparr>"
  note f = set_pc_fields[of i p s]
  note h = wf_parts(1)[OF assms(1)]
  have gi: "goroutines s ! i \<in> set (goroutines s)" using assms(2) by simp
  have h': "inv_heap ?s'"
    using h heap_goroutine[OF h gi] by (simp add: inv_heap_def f list_all_update)
  have p': "inv_pending ?s'"
    using wf_parts(2)[OF assms(1)] assms(3,4)
    by (simp add: inv_pending_def pending_update[OF f(1,2) assms(2)] f)
  have o': "inv_once ?s'"
    using wf_parts(3)[OF assms(1)]
    by (simp add: inv_once_def listeners_update[OF f(1,2) assms(2)] f)
  have t': "inv_stop ?s'"
    using wf_parts(4)[OF assms(1)] assms(5)
    by (simp add: inv_stop_def f fired_cong[OF f(1) f(5)] list_all_update is_listener_def)
  show ?thesis using h' p' o' t' by (simp add: wf_world_def)
qed

lemma listener_at:
  assumes "wf_world s" and "i < length (goroutines s)" and "is_listener (goroutines s ! i)"
  shows "listener_ok s (goroutines s ! i)"
  using wf_parts(4)[OF assms(1)] assms(2,3) by (simp add: inv_stop_def list_all_length)

lemma wf_chan_send:
  assumes "wf_world s" and "chan_send ch v s = Completes s'"
  shows "wf_world s'"
proof -
  from assms(2) obtain i where i: "first_index (receiving s ch) (goroutines s) = Some i"
    and s': "s' = set_pc i AtClose s"
    by (auto simp: chan_send_def split: if_splits option.splits)
  have fi: "first_index P xs = Some k \<Longrightarrow> k < length xs \<and> P (xs ! k)" for P and xs :: "'b list" and k
    by (induction xs arbitrary: k) (auto split: if_splits)
  from fi[OF i] have il: "i < length (goroutines s)" and r: "receiving s ch (goroutines s ! i)"
    by simp_all
  from r have l: "is_listener (goroutines s ! i)" and a: "g_pc (goroutines s ! i) = AtReceive"
    by (simp_all add: receiving_def)
  show ?thesis unfolding s'
    using listener_at[OF assms(1) il l] a
    by (intro wf_set_pc_live[OF assms(1) il]) (simp_all add: live_def listener_ok_def)
qed

lemma wf_listener_receive:
  assumes "wf_world s" and "listener_receive i s = Some s'"
  shows "wf_world s'"
proof -
  from assms(2) have il: "i < length (goroutines s)" and l: "is_listener (goroutines s ! i)"
    and a: "g_pc (goroutines s ! i) = AtReceive" and s': "s' = set_pc i AtClose s"
    by (auto simp: listener_receive_def split: if_splits)
  show ?thesis unfolding s'
    using listener_at[OF assms(1) il l] a
    by (intro wf_set_pc_live[OF assms(1) il]) (simp_all add: live_def listener_ok_def)
qed

lemma wf_fn_ends:
  assumes "wf_world s" and "fn_ends m i s = Some s'"
  shows "wf_world s'"
proof -
  from assms(2) have il: "i < length (goroutines s)" and l: "\<not> is_listener (goroutines s ! i)"
    and a: "g_pc (goroutines s ! i) = InFn" and s': "s' = set_pc i (Unwinding m) s"
    by (auto simp: fn_ends_def split: if_splits)
  show ?thesis unfolding s'
    using l a by (intro wf_set_pc_live[OF assms(1) il]) (simp_all add: live_def)
qed

lemma pending_count: "wf_world s \<Longrightarrow> wgs s w = int (length (pending s w))"
  by (simp add: wf_world_def inv_pending_def)

lemma once_count: "wf_world s \<Longrightarrow> length (listeners s n) = (if onces s n then 1 else 0)"
  by (simp add: wf_world_def inv_once_def)

lemma listener_in_listeners:
  assumes "i < length (goroutines s)" and "is_listener (goroutines s ! i)"
  shows "goroutines s ! i \<in> set (listeners s (o_once (deref s (g_caddy (goroutines s ! i)))))"
  using assms by (simp add: listeners_def)

lemma goroutine_coherent:
  assumes "wf_world s" and "i < length (goroutines s)"
  shows "coherent (deref s (g_caddy (goroutines s ! i)))"
  using heap_caddy[OF wf_parts(1)[OF assms(1)]
      heap_goroutine[OF wf_parts(1)[OF assms(1)] nth_mem[OF assms(2)]]]
  by (simp add: deref_def)

lemma listener_unique:
  assumes "wf_world s" and "i < length (goroutines s)" and "j < length (goroutines s)"
    and "is_listener (goroutines s ! i)" and "is_listener (goroutines s ! j)"
    and "o_once (deref s (g_caddy (goroutines s ! i))) = o_once (deref s (g_caddy (goroutines s ! j)))"
  shows "i = j"
proof -
  let ?n = "o_once (deref s (g_caddy (goroutines s ! i)))"
  have "length (listeners s ?n) \<le> 1"
    using once_count[OF assms(1), of ?n] by simp
  then show ?thesis
    unfolding listeners_def
    by (rule filter_unique[OF _ assms(2,3)]) (simp_all add: assms(4,5,6))
qed

lemma listener_once:
  assumes "wf_world s" and "i < length (goroutines s)" and "is_listener (goroutines s ! i)"
  shows "onces s (o_once (deref s (g_caddy (goroutines s ! i))))"
proof (rule ccontr)
  let ?n = "o_once (deref s (g_caddy (goroutines s ! i)))"
  assume "\<not> onces s ?n"
  then have "listeners s ?n = []"
    using once_count[OF assms(1), of ?n] by simp
  with listener_in_listeners[OF assms(2,3)] show False by simp
qed

lemma wf_listener_close:
  assumes "wf_world s" and "listener_close i s = Some s'"
  shows "wf_world s'"
proof -
  let ?gi = "goroutines s ! i"
  let ?ch = "stopChan (deref s (g_caddy ?gi))"
  let ?g' = "?gi\<lparr>g_pc := Unwinding Normally\<rparr>"
  from assms(2) have il: "i < length (goroutines s)" and l: "is_listener ?gi"
    and a: "g_pc ?gi = AtClose"
    by (auto simp: listener_close_def split: if_splits)
  have nf: "\<not> stopChans s ?ch"
    using listener_at[OF assms(1) il l] a by (simp add: listener_ok_def stop_fired_def)
  let ?s1 = "s\<lparr>stopChans := (stopChans s)(?ch := True)\<rparr>"
  have s': "s' = set_pc i (Unwinding Normally) ?s1"
    using assms(2) il l a nf by (simp add: listener_close_def Let_def)
  have f: "caddies s' = caddies s" "goroutines s' = (goroutines s)[i := ?g']"
    "wgs s' = wgs s" "onces s' = onces s" "stopChans s' = (stopChans s)(?ch := True)"
    "loopers s' = loopers s" "fresh s' = fresh s"
    by (simp_all add: s' set_pc_def)
  note h = wf_parts(1)[OF assms(1)]
  have h': "inv_heap s'"
    using h heap_goroutine[OF h nth_mem[OF il]] by (simp add: inv_heap_def f list_all_update)
  have p': "inv_pending s'"
    using wf_parts(2)[OF assms(1)] a
    by (simp add: inv_pending_def pending_update[OF f(1,2) il] f live_def)
  have o': "inv_once s'"
    using wf_parts(3)[OF assms(1)]
    by (simp add: inv_once_def listeners_update[OF f(1,2) il] f)
  have co: "coherent (deref s (g_caddy ?gi))" by (rule goroutine_coherent[OF assms(1) il])
  have d: "deref s' = deref s" by (simp add: fun_eq_iff deref_def f)
  have ok: "\<not> is_listener x \<or> listener_ok s' x" if x: "x \<in> set (goroutines s')" for x
  proof -
    from x obtain j where j: "j < length (goroutines s)" and xj: "x = (goroutines s') ! j"
      by (auto simp: in_set_conv_nth f)
    show ?thesis
    proof (cases "j = i")
      case True
      then show ?thesis using xj il by (simp add: f listener_ok_def stop_fired_def d)
    next
      case False
      then have xs: "x = goroutines s ! j" using xj by (simp add: f)
      show ?thesis
      proof (cases "is_listener x")
        case False
        then show ?thesis by simp
      next
        case True
        have "o_once (deref s (g_caddy x)) \<noteq> o_once (deref s (g_caddy ?gi))"
          using listener_unique[OF assms(1) j il] True l \<open>j \<noteq> i\<close> xs by auto
        then have "stopChan (deref s (g_caddy x)) \<noteq> ?ch"
          using co goroutine_coherent[OF assms(1) j] xs by (simp add: coherent_def)
        then have "stop_fired s' (g_caddy x) = stop_fired s (g_caddy x)"
          by (simp add: stop_fired_def d f)
        then have "listener_ok s' x = listener_ok s x" by (rule listener_ok_cong)
        then show ?thesis using listener_at[OF assms(1) j] True xs by simp
      qed
    qed
  qed
  have "onces s ?ch"
    using listener_once[OF assms(1) il l] co by (simp add: coherent_def)
  then have t': "inv_stop s'"
    using ok wf_parts(4)[OF assms(1)] by (auto simp: inv_stop_def list_all_iff f)
  show ?thesis using h' p' o' t' by (simp add: wf_world_def)
qed

lemma wf_run_deferred:
  assumes "wf_world s" and "run_deferred i s = Some s'"
  shows "wf_world s'"
proof -
  let ?gi = "goroutines s ! i"
  let ?w = "wg (deref s (g_caddy ?gi))"
  from assms(2) obtain m where il: "i < length (goroutines s)" and a: "g_pc ?gi = Unwinding m"
    by (auto simp: run_deferred_def split: if_splits pc.splits)
  have "?gi \<in> set (pending s ?w)"
    using il a by (simp add: pending_def live_def)
  then have "0 < length (pending s ?w)" by (cases "pending s ?w") auto
  then have pos: "1 \<le> wgs s ?w"
    using pending_count[OF assms(1), of ?w] by linarith
  let ?g' = "?gi\<lparr>g_pc := Ended m\<rparr>"
  have s': "s' = (set_pc i (Ended m) (wg_Add ?w (- 1) s))\<lparr>dead := (m = Panicking)\<rparr>"
    using assms(2) il a pos by (simp add: run_deferred_def Let_def wg_Add_def deref_def)
  have f: "caddies s' = caddies s" "goroutines s' = (goroutines s)[i := ?g']"
    "wgs s' = (wgs s)(?w := wgs s ?w - 1)" "onces s' = onces s" "stopChans s' = stopChans s"
    "loopers s' = loopers s" "fresh s' = fresh s"
    by (simp_all add: s' set_pc_def wg_Add_def)
  note h = wf_parts(1)[OF assms(1)]
  have h': "inv_heap s'"
    using h heap_goroutine[OF h nth_mem[OF il]] by (simp add: inv_heap_def f list_all_update)
  have p': "inv_pending s'"
    using wf_parts(2)[OF assms(1)] a
    by (simp add: inv_pending_def pending_update[OF f(1,2) il] f live_def)
  have o': "inv_once s'"
    using wf_parts(3)[OF assms(1)]
    by (simp add: inv_once_def listeners_update[OF f(1,2) il] f)
  have "is_listener ?gi \<longrightarrow> listener_ok s ?g'"
    using listener_at[OF assms(1) il] a by (auto simp: listener_ok_def)
  then have t': "inv_stop s'"
    using wf_parts(4)[OF assms(1)]
    by (simp add: inv_stop_def f fired_cong[OF f(1) f(5)] list_all_update is_listener_def)
  show ?thesis using h' p' o' t' by (simp add: wf_world_def)
qed

lemma wf_chan_send_any:
  assumes "wf_world s" and "resume (chan_send ch v s) = Some s'"
  shows "wf_world s'"
proof (cases "chan_send ch v s")
  case (Completes x)
  then show ?thesis using wf_chan_send[OF assms(1), of ch v x] assms(2) by simp
next
  case Blocks
  then show ?thesis using assms(2) by simp
next
  case (Panics x)
  then have "x = s" by (auto simp: chan_send_def split: if_splits option.splits)
  then show ?thesis using assms Panics by simp
qed

lemma wf_chan_close:
  assumes "wf_world s" and "resume (chan_close ch s) = Some s'"
  shows "wf_world s'"
proof -
  have "s' = s \<or> s' = s\<lparr>sigChans := (sigChans s)(ch := True)\<rparr>"
    using assms(2) by (auto simp: chan_close_def split: if_splits)
  then show ?thesis
    using assms(1) wf_cong[of "s\<lparr>sigChans := (sigChans s)(ch := True)\<rparr>" s] by auto
qed

lemma wf_signal_deliver:
  assumes "wf_world s" and "signal_deliver ch v s = Some s'"
  shows "wf_world s'"
proof (cases "chan_send ch v s")
  case (Completes x)
  then show ?thesis
    using wf_chan_send[OF assms(1), of ch v x] assms(2)
    by (auto simp: signal_deliver_def split: if_splits)
next
  case Blocks
  then show ?thesis using assms by (auto simp: signal_deliver_def split: if_splits)
next
  case (Panics x)
  then have "x = s" by (auto simp: chan_send_def split: if_splits option.splits)
  then have "s' = s\<lparr>dead := True\<rparr>"
    using assms(2) Panics by (auto simp: signal_deliver_def split: if_splits)
  then show ?thesis using assms(1) wf_cong[of "s\<lparr>dead := True\<rparr>" s] by simp
qed

lemma wf_Looper:
  assumes "wf_world s" and "valid s c" and "resume (Looper c d r f s) = Some s'"
  shows "wf_world s'"
proof -
  let ?s1 = "listen c s"
  have w1: "wf_world ?s1" by (rule wf_listen[OF assms(1,2)])
  have v1: "c < length (caddies ?s1)" using assms(2) by (simp add: valid_def prim_defs)
  have l: "list_all (\<lambda>l. l_caddy l < length (caddies ?s1)) (loopers ?s1)"
    using wf_parts(1)[OF w1] by (simp add: inv_heap_def)
  show ?thesis
    using assms(3) w1 wf_loopers[OF w1, of "loopers ?s1 @ [\<lparr>l_caddy = c, l_interval = d,
      l_fn = f, l_tick = False, l_pc = (if r then InLoopFn else AtSelect)\<rparr>]"] l v1
    by (auto simp: Looper_def Let_def split: if_splits)
qed

lemma wf_looper_update:
  assumes "wf_world s" and "l_caddy l' = l_caddy (loopers s ! i)" and "i < length (loopers s)"
  shows "wf_world (s\<lparr>loopers := (loopers s)[i := l']\<rparr>)"
proof -
  have l: "list_all (\<lambda>l. l_caddy l < length (caddies s)) (loopers s)"
    using wf_parts(1)[OF assms(1)] by (simp add: inv_heap_def)
  then have "l_caddy (loopers s ! i) < length (caddies s)"
    using assms(3) by (simp add: list_all_length)
  then show ?thesis
    using wf_loopers[OF assms(1)] l by (simp add: list_all_update assms(2))
qed

lemma wf_set_lpc: "wf_world s \<Longrightarrow> i < length (loopers s) \<Longrightarrow> wf_world (set_lpc i p s)"
  unfolding set_lpc_def by (rule wf_looper_update) simp_all

lemma wf_set_tick: "wf_world s \<Longrightarrow> i < length (loopers s) \<Longrightarrow> wf_world (set_tick i b s)"
  unfolding set_tick_def by (rule wf_looper_update) simp_all

lemma length_loopers_set_tick: "length (loopers (set_tick i b s)) = length (loopers s)"
  by (simp add: set_tick_def)

lemma wf_set_cpc: "wf_world (set_cpc k p s) = wf_world s"
  by (rule wf_cong) (simp_all add: set_cpc_def)

lemma wf_go_begin:
  assumes "wf_world s" and "valid s c"
  shows "wf_world (go_begin c f s)"
proof -
  have "wf_world (go_begin c f s) = wf_world (listen c s)"
    by (rule wf_cong) (simp_all add: go_begin_def Let_def)
  then show ?thesis using wf_listen[OF assms] by simp
qed

lemma call_valid:
  "inv_calls s \<Longrightarrow> k < length (calls s) \<Longrightarrow> valid s (k_caddy (calls s ! k))"
  by (simp add: inv_calls_def list_all_length valid_def)

lemma wf_Go_admit:
  assumes "wf_world s" and "valid s c"
  shows "wf_world (snd (Go_admit c s))"
  using assms wf_copy[OF assms] by (simp add: Go_admit_def)

lemma wf_go_admit:
  assumes "wf_world s" and "inv_calls s" and "go_admit k s = Some s'"
  shows "wf_world s'"
proof -
  from assms(3) have k: "k < length (calls s)"
    by (simp add: go_admit_def split: if_splits)
  from assms(3) obtain p where "s' = set_cpc k p (snd (Go_admit (k_caddy (calls s ! k)) s))"
    by (auto simp: go_admit_def split: if_splits prod.splits sum.splits)
  then show ?thesis
    using wf_Go_admit[OF assms(1) call_valid[OF assms(2) k]] by (simp add: wf_set_cpc)
qed

lemma wf_go_start:
  assumes "wf_world s" and "inv_calls s" and "go_start k s = Some s'"
  shows "wf_world s'"
proof -
  from assms(3) have k: "k < length (calls s)"
    by (simp add: go_start_def split: if_splits)
  from assms(3) obtain c2 where
    "s' = set_cpc k (GoReturned None)
            (Go_start (k_caddy (calls s ! k)) (k_fn (calls s ! k)) c2 s)"
    by (auto simp: go_start_def split: if_splits cpc.splits)
  then show ?thesis
    using wf_spawn[OF assms(1) call_valid[OF assms(2) k],
        of "\<lparr>g_caddy = k_caddy (calls s ! k), g_code = GoClosure (k_fn (calls s ! k)) c2,
             g_pc = InFn\<rparr>"]
    by (simp add: wf_set_cpc Go_start_def is_listener_def live_def)
qed

lemma wf_perform:
  assumes "wf_world s" and "inv_calls s" and "perform e s = Some s'"
  shows "wf_world s'"
proof (cases e)
  case (CallNewCaddy b)
  then show ?thesis using assms wf_NewCaddy[of s b] by auto
next
  case (CallGo c f)
  then show ?thesis using assms wf_go_begin[of s c f] by (auto split: if_splits)
next
  case (GoAdmit k)
  then show ?thesis using assms wf_go_admit[of s k s'] by auto
next
  case (GoStart k)
  then show ?thesis using assms wf_go_start[of s k s'] by auto
next
  case (CallStop c)
  then show ?thesis
    using assms wf_chan_send_any[of s "sigChan (deref s c)" SIGINT s']
    by (auto simp: Stop_def split: if_splits)
next
  case (CallWait c)
  then show ?thesis using assms by (auto simp: Wait_def split: if_splits)
next
  case (CallLooper c d r f)
  then show ?thesis using assms wf_Looper[of s c d r f s'] by (auto split: if_splits)
next
  case (SendSig c v)
  then show ?thesis
    using assms wf_chan_send_any[of s "SigChan s c" v s'] by (auto split: if_splits)
next
  case (CloseSig c)
  then show ?thesis
    using assms wf_chan_close[of s "SigChan s c" s'] by (auto split: if_splits)
next
  case (Deliver ch v)
  then show ?thesis using assms wf_signal_deliver[of s ch v s'] by auto
next
  case (Receive i)
  then show ?thesis using assms wf_listener_receive[of s i s'] by auto
next
  case (CloseStop i)
  then show ?thesis using assms wf_listener_close[of s i s'] by auto
next
  case (FnEnds m i)
  then show ?thesis using assms wf_fn_ends[of s m i s'] by auto
next
  case (RunDeferred i)
  then show ?thesis using assms wf_run_deferred[of s i s'] by auto
next
  case (Tick i)
  then show ?thesis using assms wf_set_tick[of s i True]
    by (auto simp: ticker_fires_def split: if_splits)
next
  case (SelectTick i)
  then show ?thesis
    using assms wf_set_lpc[OF wf_set_tick[of s i False], of i AtRecheck]
    by (auto simp: select_tick_def length_loopers_set_tick split: if_splits)
next
  case (SelectStop i)
  then show ?thesis using assms wf_set_lpc[of s i Returned]
    by (auto simp: select_stop_def split: if_splits)
next
  case (Recheck i)
  then show ?thesis using assms wf_set_lpc[of s i]
    by (auto simp: recheck_def split: if_splits)
next
  case (LoopFnEnds m i)
  then show ?thesis using assms wf_set_lpc[of s i]
    by (auto simp: loop_fn_ends_def split: if_splits)
qed

lemma nth_update_read: "i < length xs \<Longrightarrow> (xs[k := y]) ! i = (if k = i then y else xs ! i)"
  by (cases "k = i") simp_all

lemmas op_defs = NewCaddy_def go_begin_def go_admit_def go_start_def Go_admit_def Go_start_def
  set_cpc_def listen_def copy_def wg_Add_def go_stmt_def
  signal_Notify_def Stop_def chan_send_def chan_close_def set_pc_def listener_close_def
  listener_receive_def run_deferred_def fn_ends_def Let_def Looper_def set_lpc_def
  set_tick_def select_tick_def select_stop_def recheck_def loop_fn_ends_def ticker_fires_def
  signal_deliver_def Wait_def

lemma perform_caddies:
  assumes "perform e s = Some s'"
  shows "\<exists>cs. caddies s' = caddies s @ cs"
  using assms
  by (cases e) (auto simp: op_defs case_prod_beta split: if_splits option.splits outcome.splits pc.splits cpc.splits sum.splits)

lemma perform_call:
  assumes "perform e s = Some s'" and "k < length (calls s')"
  shows "(k < length (calls s) \<and> k_caddy (calls s' ! k) = k_caddy (calls s ! k)
          \<and> k_fn (calls s' ! k) = k_fn (calls s ! k))
       \<or> valid s (k_caddy (calls s' ! k))"
  using assms
  by (cases e)
    (auto simp: op_defs case_prod_beta nth_append nth_update_read
      split: if_splits option.splits outcome.splits pc.splits cpc.splits sum.splits)

lemma inv_calls_perform:
  assumes "inv_calls s" and "perform e s = Some s'"
  shows "inv_calls s'"
proof -
  from perform_caddies[OF assms(2)] obtain cs where cs: "caddies s' = caddies s @ cs" by blast
  have "k_caddy (calls s' ! k) < length (caddies s')" if "k < length (calls s')" for k
    using perform_call[OF assms(2) that] call_valid[OF assms(1), of k] cs
    by (auto simp: valid_def)
  then show ?thesis by (simp add: inv_calls_def list_all_length)
qed

lemma wf_step:
  "wf_world s \<and> inv_calls s \<Longrightarrow> step e s = Some s' \<Longrightarrow> wf_world s' \<and> inv_calls s'"
  by (auto simp: step_def wf_perform inv_calls_perform split: if_splits)

lemma wf_run:
  "wf_world s \<and> inv_calls s \<Longrightarrow> run es s = Some s' \<Longrightarrow> wf_world s' \<and> inv_calls s'"
proof (induction es arbitrary: s)
  case Nil
  then show ?case by simp
next
  case (Cons e es)
  from Cons.prems(2) obtain s1 where s1: "step e s = Some s1" and r1: "run es s1 = Some s'"
    by (auto split: option.splits)
  show ?case by (rule Cons.IH[OF wf_step[OF Cons.prems(1) s1] r1])
qed

lemma inv_calls_init: "inv_calls init"
  by (simp add: inv_calls_def init_def)

lemma reachable_wf: "reachable s \<Longrightarrow> wf_world s"
  using wf_run[of init] wf_init inv_calls_init by (auto simp: reachable_def)

lemma reachable_calls: "reachable s \<Longrightarrow> inv_calls s"
  using wf_run[of init] wf_init inv_calls_init by (auto simp: reachable_def)

section \<open>What a step leaves as it was\<close>

lemma perform_goroutine:
  assumes "perform e s = Some s'" and "i < length (goroutines s)"
  shows "i < length (goroutines s')
       \<and> g_caddy (goroutines s' ! i) = g_caddy (goroutines s ! i)
       \<and> g_code (goroutines s' ! i) = g_code (goroutines s ! i)
       \<and> (g_pc (goroutines s ! i) \<noteq> AtReceive \<longrightarrow> g_pc (goroutines s' ! i) \<noteq> AtReceive)"
  using assms
  by (cases e)
    (auto simp: op_defs case_prod_beta nth_append nth_update_read
      split: if_splits option.splits outcome.splits pc.splits cpc.splits sum.splits)

lemma perform_looper:
  assumes "perform e s = Some s'" and "i < length (loopers s)"
  shows "i < length (loopers s')
       \<and> l_caddy (loopers s' ! i) = l_caddy (loopers s ! i)
       \<and> l_interval (loopers s' ! i) = l_interval (loopers s ! i)
       \<and> l_fn (loopers s' ! i) = l_fn (loopers s ! i)
       \<and> (l_pc (loopers s ! i) = Returned \<longrightarrow> l_pc (loopers s' ! i) = Returned)"
  using assms
  by (cases e)
    (auto simp: op_defs case_prod_beta nth_append nth_update_read
      split: if_splits option.splits outcome.splits pc.splits cpc.splits sum.splits)

lemma perform_stopChans:
  assumes "perform e s = Some s'"
  shows "stopChans s' = stopChans s
       \<or> stopChans s' = (stopChans s)(fresh s := False)
       \<or> (\<exists>i. e = CloseStop i \<and> i < length (goroutines s) \<and> is_listener (goroutines s ! i)
              \<and> g_pc (goroutines s ! i) = AtClose
              \<and> stopChans s' = (stopChans s)(stopChan (deref s (g_caddy (goroutines s ! i))) := True))"
  using assms
  by (cases e)
    (auto simp: op_defs case_prod_beta
      split: if_splits option.splits outcome.splits pc.splits cpc.splits sum.splits)

lemma perform_boolCells:
  assumes "perform e s = Some s'"
  shows "boolCells s' = boolCells s \<or> (\<exists>b. boolCells s' = (boolCells s)(fresh s := b))"
  using assms
  by (cases e)
    (auto simp: op_defs case_prod_beta
      split: if_splits option.splits outcome.splits pc.splits cpc.splits sum.splits)

section \<open>Facts about the operations\<close>

lemma caddies_listen: "caddies (listen c s) = caddies s"
  by (simp add: prim_defs)

lemma deref_listen: "deref (listen c s) r = deref s r"
  by (simp add: prim_defs)

lemma tasks_listen: "tasks (listen c s) = tasks s"
  by (simp add: prim_defs tasks_def is_listener_def)

lemma stop_fired_listen: "stop_fired (listen c s) r = stop_fired s r"
  by (simp add: prim_defs stop_fired_def)

lemma listen_done: "onces s (o_once (deref s c)) \<Longrightarrow> listen c s = s"
  by (simp add: listen_def)

lemmas eval_defs = step_def NewCaddy_def Go_def go_begin_def go_admit_def go_start_def
  Go_admit_def Go_start_def set_cpc_def listen_def copy_def wg_Add_def go_stmt_def
  signal_Notify_def deref_def valid_def init_def Stop_def chan_send_def chan_close_def
  receiving_def is_listener_def set_pc_def listener_close_def listener_receive_def
  run_deferred_def fn_ends_def Let_def SigChan_def stop_fired_def Looper_def
  NewTicker_panics_def set_lpc_def set_tick_def select_tick_def select_stop_def recheck_def
  loop_fn_ends_def tick_ready_def ticker_fires_def signal_deliver_def Wait_def tasks_def

lemma demo_started_run:
  "run [CallNewCaddy False, CallGo 0 7, GoAdmit 0, GoStart 0] init = Some demo_started"
  by (simp add: demo_started_def eval_defs)

lemma demo_stopped_run:
  "run [CallNewCaddy False, CallGo 0 7, GoAdmit 0, GoStart 0, CallStop 0, CloseStop 0] init = Some demo_stopped"
  by (simp add: demo_stopped_def eval_defs)

lemma demo_started_facts:
  "valid demo_started 0" "isTopLevel (deref demo_started 0)" "\<not> stop_fired demo_started 0"
  "valid demo_started 1" "\<not> isTopLevel (deref demo_started 1)"
  by (simp_all add: demo_started_def eval_defs)

lemma demo_stopped_facts:
  "valid demo_stopped 0" "isTopLevel (deref demo_stopped 0)" "stop_fired demo_stopped 0"
  "valid demo_stopped 1" "\<not> isTopLevel (deref demo_stopped 1)" "stop_fired demo_stopped 1"
  by (simp_all add: demo_stopped_def eval_defs)

section \<open>Go on a Caddy that is not top-level\<close>

text \<open>
  Claim C2. \<^verbatim>\<open>Go\<close> on a Caddy that is not top-level returns nil whether or not the stop
  has fired (the theorem has no hypothesis about stopChan), the new goroutine's function
  gets the caller's own pointer \<open>c\<close>, and no Caddy is allocated. So it is for a call that
  runs alone, and so it is step by step in any world the call finds: at its select it goes
  on with \<open>c\<close> itself, and at its \<^verbatim>\<open>Add(1)\<close> it starts the goroutine with \<open>c\<close> and returns nil.
\<close>

theorem Go_nonroot:
  assumes "valid s c" and "\<not> isTopLevel (deref s c)"
  shows "fst (Go c f s) = None
       \<and> goroutines (snd (Go c f s)) =
           goroutines (listen c s) @ [\<lparr>g_caddy = c, g_code = GoClosure f c, g_pc = InFn\<rparr>]
       \<and> caddies (snd (Go c f s)) = caddies s
       \<and> Go_admit c s = (Inr c, s)
       \<and> goroutines (Go_start c f c s) =
           goroutines s @ [\<lparr>g_caddy = c, g_code = GoClosure f c, g_pc = InFn\<rparr>]
       \<and> caddies (Go_start c f c s) = caddies s
       \<and> (k < length (calls s) \<and> k_caddy (calls s ! k) = c
            \<and> k_pc (calls s ! k) = AtGoSelect \<and> \<not> dead s \<longrightarrow>
            step (GoAdmit k) s = Some (set_cpc k (AtGoAdd c) s))
       \<and> (j < length (calls s) \<and> k_caddy (calls s ! j) = c \<and> k_fn (calls s ! j) = f
            \<and> k_pc (calls s ! j) = AtGoAdd c \<and> \<not> dead s \<longrightarrow>
            step (GoStart j) s = Some (set_cpc j (GoReturned None) (Go_start c f c s)))"
  using assms
  by (simp add: Go_unfold Let_def deref_listen caddies_listen wg_Add_def go_stmt_def
      Go_admit_def Go_start_def step_def go_admit_def go_start_def)

theorem Go_nonroot_witness:
  "valid demo_stopped 1 \<and> \<not> isTopLevel (deref demo_stopped 1) \<and> stop_fired demo_stopped 1
   \<and> fst (Go 1 9 demo_stopped) = None
   \<and> goroutines (snd (Go 1 9 demo_stopped)) =
       goroutines (listen 1 demo_stopped) @ [\<lparr>g_caddy = 1, g_code = GoClosure 9 1, g_pc = InFn\<rparr>]
   \<and> caddies (snd (Go 1 9 demo_stopped)) = caddies demo_stopped
   \<and> valid demo_nonroot_calls 1 \<and> \<not> isTopLevel (deref demo_nonroot_calls 1)
   \<and> stop_fired demo_nonroot_calls 1 \<and> \<not> dead demo_nonroot_calls
   \<and> k_caddy (calls demo_nonroot_calls ! 2) = 1
   \<and> k_pc (calls demo_nonroot_calls ! 2) = AtGoSelect
   \<and> step (GoAdmit 2) demo_nonroot_calls = Some (set_cpc 2 (AtGoAdd 1) demo_nonroot_calls)
   \<and> k_caddy (calls demo_nonroot_calls ! 1) = 1 \<and> k_fn (calls demo_nonroot_calls ! 1) = 8
   \<and> k_pc (calls demo_nonroot_calls ! 1) = AtGoAdd 1
   \<and> step (GoStart 1) demo_nonroot_calls =
       Some (set_cpc 1 (GoReturned None) (Go_start 1 8 1 demo_nonroot_calls))"
proof -
  have a: "fst (Go 1 9 demo_stopped) = None
   \<and> goroutines (snd (Go 1 9 demo_stopped)) =
       goroutines (listen 1 demo_stopped) @ [\<lparr>g_caddy = 1, g_code = GoClosure 9 1, g_pc = InFn\<rparr>]
   \<and> caddies (snd (Go 1 9 demo_stopped)) = caddies demo_stopped"
    using Go_nonroot[OF demo_stopped_facts(4,5), of 9] by simp
  have k: "valid demo_nonroot_calls 1" "\<not> isTopLevel (deref demo_nonroot_calls 1)"
    "stop_fired demo_nonroot_calls 1" "\<not> dead demo_nonroot_calls"
    "2 < length (calls demo_nonroot_calls)"
    "k_caddy (calls demo_nonroot_calls ! 2) = 1"
    "k_pc (calls demo_nonroot_calls ! 2) = AtGoSelect"
    "k_caddy (calls demo_nonroot_calls ! 1) = 1" "k_fn (calls demo_nonroot_calls ! 1) = 8"
    "k_pc (calls demo_nonroot_calls ! 1) = AtGoAdd 1"
    by (simp_all add: demo_nonroot_calls_def demo_stopped_def eval_defs)
  have b: "step (GoAdmit 2) demo_nonroot_calls = Some (set_cpc 2 (AtGoAdd 1) demo_nonroot_calls)
    \<and> step (GoStart 1) demo_nonroot_calls =
       Some (set_cpc 1 (GoReturned None) (Go_start 1 8 1 demo_nonroot_calls))"
    using Go_nonroot[OF k(1,2), where k = 2 and j = 1 and f = 8] k by simp
  show ?thesis using a b k demo_stopped_facts(4,5,6) by simp
qed

section \<open>What a refused Go leaves behind\<close>

text \<open>
  Claim C10. When \<^verbatim>\<open>Go\<close> returns \<^verbatim>\<open>ErrStopping\<close>, the world after the call is the world
  after \<^verbatim>\<open>listen\<close> alone: no Caddy is allocated, no task is started, the counter is what
  \<^verbatim>\<open>listen\<close> left, and when the Once was already done nothing has changed at all. Step by
  step: the select that refuses leaves the world as it found it, and the step of a call at
  that select changes nothing but the call's own program point, which becomes the
  returned error.
\<close>

theorem Go_stopping_frame:
  assumes "valid s c" and "fst (Go c f s) = Some ErrStopping"
  shows "snd (Go c f s) = listen c s
       \<and> caddies (snd (Go c f s)) = caddies s
       \<and> tasks (snd (Go c f s)) = tasks s
       \<and> wgs (snd (Go c f s)) = wgs (listen c s)
       \<and> (onces s (o_once (deref s c)) \<longrightarrow> snd (Go c f s) = s)
       \<and> Go_admit c s = (Inl ErrStopping, s)
       \<and> (k < length (calls s) \<and> k_caddy (calls s ! k) = c
            \<and> k_pc (calls s ! k) = AtGoSelect \<and> \<not> dead s \<longrightarrow>
            step (GoAdmit k) s = Some (set_cpc k (GoReturned (Some ErrStopping)) s))"
proof -
  from assms(2) have r: "isTopLevel (deref s c)" and f: "stopChans s (stopChan (deref s c))"
    using stop_fired_listen[of c s c]
    by (auto simp: Go_unfold Let_def deref_listen stop_fired_def case_prod_beta
        split: if_splits)
  then have a: "Go_admit c s = (Inl ErrStopping, s)" by (simp add: Go_admit_def)
  have b: "snd (Go c f s) = listen c s
       \<and> caddies (snd (Go c f s)) = caddies s
       \<and> tasks (snd (Go c f s)) = tasks s
       \<and> wgs (snd (Go c f s)) = wgs (listen c s)
       \<and> (onces s (o_once (deref s c)) \<longrightarrow> snd (Go c f s) = s)"
    using assms
    by (auto simp: Go_unfold Let_def deref_listen caddies_listen tasks_listen listen_done
        split: prod.splits if_splits)
  have d: "k < length (calls s) \<and> k_caddy (calls s ! k) = c
            \<and> k_pc (calls s ! k) = AtGoSelect \<and> \<not> dead s \<longrightarrow>
            step (GoAdmit k) s = Some (set_cpc k (GoReturned (Some ErrStopping)) s)"
    using a by (simp add: step_def go_admit_def)
  show ?thesis using a b d by blast
qed

theorem Go_stopping_frame_witness:
  "valid demo_stopped 0 \<and> fst (Go 0 9 demo_stopped) = Some ErrStopping
   \<and> onces demo_stopped (o_once (deref demo_stopped 0))
   \<and> snd (Go 0 9 demo_stopped) = demo_stopped
   \<and> run [CallNewCaddy False, CloseSig 0, CallGo 0 7, Receive 0, CloseStop 0] init
       = Some demo_late_select
   \<and> valid demo_late_select 0 \<and> fst (Go 0 7 demo_late_select) = Some ErrStopping
   \<and> k_caddy (calls demo_late_select ! 0) = 0
   \<and> k_pc (calls demo_late_select ! 0) = AtGoSelect \<and> \<not> dead demo_late_select
   \<and> step (GoAdmit 0) demo_late_select =
       Some (set_cpc 0 (GoReturned (Some ErrStopping)) demo_late_select)"
proof -
  have e: "fst (Go 0 9 demo_stopped) = Some ErrStopping"
    by (simp add: demo_stopped_def eval_defs)
  have o: "onces demo_stopped (o_once (deref demo_stopped 0))"
    by (simp add: demo_stopped_def eval_defs)
  have a: "snd (Go 0 9 demo_stopped) = demo_stopped"
    using Go_stopping_frame[OF demo_stopped_facts(1) e] o by (simp add: listen_done)
  have k: "run [CallNewCaddy False, CloseSig 0, CallGo 0 7, Receive 0, CloseStop 0] init
       = Some demo_late_select"
    "valid demo_late_select 0" "fst (Go 0 7 demo_late_select) = Some ErrStopping"
    "0 < length (calls demo_late_select)"
    "k_caddy (calls demo_late_select ! 0) = 0"
    "k_pc (calls demo_late_select ! 0) = AtGoSelect" "\<not> dead demo_late_select"
    by (simp_all add: demo_late_select_def demo_preclosed_def eval_defs)
  have b: "step (GoAdmit 0) demo_late_select =
       Some (set_cpc 0 (GoReturned (Some ErrStopping)) demo_late_select)"
    using Go_stopping_frame[OF k(2,3), where k = 0] k by simp
  show ?thesis using a b e o k demo_stopped_facts(1) by simp
qed

section \<open>Looper with runImmediately\<close>

text \<open>
  Claim C8, as amended. For every interval that is not negative and every state of
  stopChan, \<^verbatim>\<open>Looper\<close> with runImmediately true calls \<^verbatim>\<open>f\<close> once before the loop: the call
  stands inside \<^verbatim>\<open>f()\<close> right after \<^verbatim>\<open>listen\<close> and the making of the tick channel. (The
  theorem has no hypothesis about stopChan.)
\<close>

theorem Looper_runs_immediately:
  assumes "valid s c" and "0 \<le> interval"
  shows "Looper c interval True f s =
         Completes ((listen c s)\<lparr>loopers := loopers (listen c s) @
           [\<lparr>l_caddy = c, l_interval = interval, l_fn = f, l_tick = False, l_pc = InLoopFn\<rparr>]\<rparr>)"
  using assms by (cases "interval = 0") (simp_all add: Looper_def Let_def NewTicker_panics_def)

theorem Looper_runs_immediately_witness:
  "valid demo_stopped 1 \<and> (0::int) \<le> 3000000000 \<and> stop_fired demo_stopped 1
   \<and> Looper 1 3000000000 True 9 demo_stopped =
       Completes ((listen 1 demo_stopped)\<lparr>loopers := loopers (listen 1 demo_stopped) @
         [\<lparr>l_caddy = 1, l_interval = 3000000000, l_fn = 9, l_tick = False, l_pc = InLoopFn\<rparr>]\<rparr>)"
  using Looper_runs_immediately[OF demo_stopped_facts(4), of 3000000000 9]
    demo_stopped_facts(4,6) by simp

text \<open>
  The claim as stated, for every interval, fails at a negative one: \<^verbatim>\<open>time.NewTicker\<close>
  panics before \<^verbatim>\<open>f\<close> is called, and no loop is entered.
\<close>

theorem Looper_negative_interval:
  "Looper 0 (- 1) True 9 demo_started = Panics (listen 0 demo_started)
   \<and> loopers (listen 0 demo_started) = []"
  by (simp add: demo_started_def eval_defs)

section \<open>Runs\<close>

lemma step_perform: "step e s = Some s' \<Longrightarrow> perform e s = Some s' \<and> \<not> dead s"
  by (auto simp: step_def split: if_splits)

lemma step_deref:
  assumes "step e s = Some s'" and "valid s r"
  shows "valid s' r \<and> deref s' r = deref s r"
proof -
  from perform_caddies[of e s s'] step_perform[OF assms(1)]
  obtain cs where "caddies s' = caddies s @ cs" by auto
  then show ?thesis using assms(2) by (simp add: valid_def deref_def nth_append)
qed

lemma reachable_run: "reachable s \<Longrightarrow> run es s = Some s' \<Longrightarrow> reachable s'"
proof -
  have app: "run (xs @ ys) (a :: 'a world) = (case run xs a of None \<Rightarrow> None | Some b \<Rightarrow> run ys b)"
    for xs ys a
    by (induction xs arbitrary: a) (auto split: option.splits)
  assume "reachable s" and r: "run es s = Some s'"
  then obtain xs where "run xs init = Some s" by (auto simp: reachable_def)
  then have "run (xs @ es) init = Some s'" using r by (simp add: app)
  then show ?thesis unfolding reachable_def by blast
qed

lemma reachable_step: "reachable s \<Longrightarrow> step e s = Some s' \<Longrightarrow> reachable s'"
  using reachable_run[of s "[e]" s'] by simp

lemma reachable_init: "reachable init"
  unfolding reachable_def by (rule exI[of _ "[]"]) simp

section \<open>The Caddy structs never change\<close>

text \<open>
  Claim C9. No step changes a Caddy of the heap, so isTopLevel stays as it was set when
  the struct was allocated. A \<^verbatim>\<open>Go\<close> that succeeds on a top-level Caddy allocates one new
  struct, equal to the caller's but for isTopLevel false (the five references are the
  caller's), and hands its address to the new goroutine's function. The struct is
  allocated by the step of the call at its select, which keeps the address for the
  \<^verbatim>\<open>go\<close> statement and changes nothing else.
\<close>

theorem scope_frame:
  "(step e s = Some s' \<and> valid s r \<longrightarrow>
      valid s' r \<and> isTopLevel (deref s' r) = isTopLevel (deref s r) \<and> deref s' r = deref s r)
   \<and> (valid s c \<and> isTopLevel (deref s c) \<and> \<not> stop_fired s c \<longrightarrow>
        fst (Go c f s) = None
        \<and> caddies (snd (Go c f s)) = caddies s @ [(deref s c)\<lparr>isTopLevel := False\<rparr>]
        \<and> goroutines (snd (Go c f s)) = goroutines (listen c s) @
             [\<lparr>g_caddy = c, g_code = GoClosure f (length (caddies s)), g_pc = InFn\<rparr>]
        \<and> Go_admit c s =
            (Inr (length (caddies s)),
             s\<lparr>caddies := caddies s @ [(deref s c)\<lparr>isTopLevel := False\<rparr>]\<rparr>)
        \<and> (k < length (calls s) \<and> k_caddy (calls s ! k) = c
             \<and> k_pc (calls s ! k) = AtGoSelect \<and> \<not> dead s \<longrightarrow>
             step (GoAdmit k) s =
               Some (set_cpc k (AtGoAdd (length (caddies s)))
                      (s\<lparr>caddies := caddies s @ [(deref s c)\<lparr>isTopLevel := False\<rparr>]\<rparr>))))"
proof -
  have a: "step e s = Some s' \<and> valid s r \<longrightarrow>
      valid s' r \<and> isTopLevel (deref s' r) = isTopLevel (deref s r) \<and> deref s' r = deref s r"
    using step_deref[of e s s' r] by auto
  have b: "valid s c \<and> isTopLevel (deref s c) \<and> \<not> stop_fired s c \<longrightarrow>
        fst (Go c f s) = None
        \<and> caddies (snd (Go c f s)) = caddies s @ [(deref s c)\<lparr>isTopLevel := False\<rparr>]
        \<and> goroutines (snd (Go c f s)) = goroutines (listen c s) @
             [\<lparr>g_caddy = c, g_code = GoClosure f (length (caddies s)), g_pc = InFn\<rparr>]"
    using stop_fired_listen[of c s c]
    by (auto simp: Go_unfold Let_def deref_listen caddies_listen stop_fired_def copy_def
        wg_Add_def go_stmt_def)
  have q: "\<lparr>o_once = o_once x, wg = wg x, stopChan = stopChan x, sigChan = sigChan x,
             notifyDefault = notifyDefault x, isTopLevel = False\<rparr> = x\<lparr>isTopLevel := False\<rparr>"
    for x :: Caddy
    by (cases x) simp
  have d: "valid s c \<and> isTopLevel (deref s c) \<and> \<not> stop_fired s c \<longrightarrow>
        Go_admit c s =
            (Inr (length (caddies s)),
             s\<lparr>caddies := caddies s @ [(deref s c)\<lparr>isTopLevel := False\<rparr>]\<rparr>)
        \<and> (k < length (calls s) \<and> k_caddy (calls s ! k) = c
             \<and> k_pc (calls s ! k) = AtGoSelect \<and> \<not> dead s \<longrightarrow>
             step (GoAdmit k) s =
               Some (set_cpc k (AtGoAdd (length (caddies s)))
                      (s\<lparr>caddies := caddies s @ [(deref s c)\<lparr>isTopLevel := False\<rparr>]\<rparr>)))"
    by (simp add: Go_admit_def stop_fired_def copy_def step_def go_admit_def q)
  show ?thesis using a b d by blast
qed

theorem scope_frame_witness:
  "step (GoAdmit 1) (go_begin 0 9 demo_started) =
     Some (set_cpc 1 (AtGoAdd 2) (snd (copy 0 (go_begin 0 9 demo_started))))
   \<and> valid (go_begin 0 9 demo_started) 0
   \<and> valid (set_cpc 1 (AtGoAdd 2) (snd (copy 0 (go_begin 0 9 demo_started)))) 0
   \<and> deref (set_cpc 1 (AtGoAdd 2) (snd (copy 0 (go_begin 0 9 demo_started)))) 0 =
       deref (go_begin 0 9 demo_started) 0
   \<and> valid demo_started 0
   \<and> isTopLevel (deref demo_started 0) \<and> \<not> stop_fired demo_started 0
   \<and> fst (Go 0 9 demo_started) = None
   \<and> caddies (snd (Go 0 9 demo_started)) =
       caddies demo_started @ [(deref demo_started 0)\<lparr>isTopLevel := False\<rparr>]
   \<and> isTopLevel (deref (go_begin 0 9 demo_started) 0)
   \<and> \<not> stop_fired (go_begin 0 9 demo_started) 0
   \<and> 1 < length (calls (go_begin 0 9 demo_started))
   \<and> k_caddy (calls (go_begin 0 9 demo_started) ! 1) = 0
   \<and> k_pc (calls (go_begin 0 9 demo_started) ! 1) = AtGoSelect
   \<and> \<not> dead (go_begin 0 9 demo_started)
   \<and> Go_admit 0 (go_begin 0 9 demo_started) =
       (Inr 2, (go_begin 0 9 demo_started)
          \<lparr>caddies := caddies (go_begin 0 9 demo_started) @
             [(deref (go_begin 0 9 demo_started) 0)\<lparr>isTopLevel := False\<rparr>]\<rparr>)"
proof -
  have s: "step (GoAdmit 1) (go_begin 0 9 demo_started) =
     Some (set_cpc 1 (AtGoAdd 2) (snd (copy 0 (go_begin 0 9 demo_started))))"
    and v: "valid (go_begin 0 9 demo_started) 0"
    by (simp_all add: demo_started_def eval_defs)
  have k: "isTopLevel (deref (go_begin 0 9 demo_started) 0)"
    "\<not> stop_fired (go_begin 0 9 demo_started) 0"
    "1 < length (calls (go_begin 0 9 demo_started))"
    "k_caddy (calls (go_begin 0 9 demo_started) ! 1) = 0"
    "k_pc (calls (go_begin 0 9 demo_started) ! 1) = AtGoSelect"
    "\<not> dead (go_begin 0 9 demo_started)"
    "length (caddies (go_begin 0 9 demo_started)) = 2"
    by (simp_all add: demo_started_def eval_defs)
  have a1: "valid (set_cpc 1 (AtGoAdd 2) (snd (copy 0 (go_begin 0 9 demo_started)))) 0
   \<and> deref (set_cpc 1 (AtGoAdd 2) (snd (copy 0 (go_begin 0 9 demo_started)))) 0 =
       deref (go_begin 0 9 demo_started) 0"
    using scope_frame[where e = "GoAdmit 1" and s = "go_begin 0 9 demo_started"
        and s' = "set_cpc 1 (AtGoAdd 2) (snd (copy 0 (go_begin 0 9 demo_started)))"
        and r = 0 and c = 0 and f = 9 and k = 1]
      s v by simp
  have a2: "Go_admit 0 (go_begin 0 9 demo_started) =
       (Inr 2, (go_begin 0 9 demo_started)
          \<lparr>caddies := caddies (go_begin 0 9 demo_started) @
             [(deref (go_begin 0 9 demo_started) 0)\<lparr>isTopLevel := False\<rparr>]\<rparr>)"
    using scope_frame[where e = "GoAdmit 1" and s = "go_begin 0 9 demo_started"
        and s' = "set_cpc 1 (AtGoAdd 2) (snd (copy 0 (go_begin 0 9 demo_started)))"
        and r = 0 and c = 0 and f = 9 and k = 1]
      v k(1,2,7) by simp
  note a = a1 a2
  have b: "fst (Go 0 9 demo_started) = None
   \<and> caddies (snd (Go 0 9 demo_started)) =
       caddies demo_started @ [(deref demo_started 0)\<lparr>isTopLevel := False\<rparr>]"
    using scope_frame[where e = "GoAdmit 1" and s = demo_started and s' = demo_started
        and r = 0 and c = 0 and f = 9 and k = 0]
      demo_started_facts(1,2,3) by simp
  show ?thesis using a b s v k demo_started_facts(1,2,3) by simp
qed

section \<open>The pending counter\<close>

lemma demo_panicked_run:
  "run [CallNewCaddy False, CallGo 0 7, GoAdmit 0, GoStart 0, FnEnds Panicking 1] init = Some demo_panicked"
  by (simp add: demo_panicked_def eval_defs)

lemma run_deferred_reachable:
  assumes "reachable s" and "i < length (goroutines s)"
    and "g_pc (goroutines s ! i) = Unwinding m"
  shows "run_deferred i s =
         Some ((set_pc i (Ended m) (wg_Add (wg (deref s (g_caddy (goroutines s ! i)))) (- 1) s))
                 \<lparr>dead := (m = Panicking)\<rparr>)"
proof -
  let ?w = "wg (deref s (g_caddy (goroutines s ! i)))"
  have "goroutines s ! i \<in> set (pending s ?w)"
    using assms(2,3) by (simp add: pending_def live_def)
  then have "0 < length (pending s ?w)" by (cases "pending s ?w") auto
  then have "1 \<le> wgs s ?w"
    using pending_count[OF reachable_wf[OF assms(1)], of ?w] by linarith
  then show ?thesis
    using assms(2,3) by (simp add: run_deferred_def Let_def wg_Add_def)
qed

text \<open>
  Claim C3. In every reachable world the counter of a WaitGroup is the number of
  goroutines started under it that have not yet run their deferred \<^verbatim>\<open>Done\<close>, so it is
  never negative. \<^verbatim>\<open>listen\<close> (when it starts the listener) and a successful \<^verbatim>\<open>Go\<close> each add
  one to the counter and one goroutine; the \<^verbatim>\<open>Add(1)\<close> and the \<^verbatim>\<open>go\<close> of a call of \<^verbatim>\<open>Go\<close> are
  one step of that call, enabled whenever the call has come to it. However the function of a task ends, by a return
  or by a panic (\<open>m\<close>), the goroutine goes on to its deferred call; that call is enabled,
  subtracts exactly one and ends the goroutine in the same mode, with no panic of its own;
  an ended goroutine takes no further step.
\<close>

theorem pending_paired:
  assumes "reachable s"
  shows "0 \<le> wgs s w \<and> wgs s w = int (length (pending s w))
       \<and> (valid s c \<and> \<not> onces s (o_once (deref s c)) \<longrightarrow>
            wgs (listen c s) = (wgs s)(wg (deref s c) := wgs s (wg (deref s c)) + 1)
            \<and> length (goroutines (listen c s)) = Suc (length (goroutines s)))
       \<and> (valid s c \<and> fst (Go c f s) = None \<longrightarrow>
            wgs (snd (Go c f s)) =
              (wgs (listen c s))(wg (deref s c) := wgs (listen c s) (wg (deref s c)) + 1)
            \<and> length (goroutines (snd (Go c f s))) = Suc (length (goroutines (listen c s))))
       \<and> wgs (Go_start c f c' s) = (wgs s)(wg (deref s c) := wgs s (wg (deref s c)) + 1)
       \<and> length (goroutines (Go_start c f c' s)) = Suc (length (goroutines s))
       \<and> (j < length (calls s) \<and> k_pc (calls s ! j) = AtGoAdd c' \<and> \<not> dead s \<longrightarrow>
            step (GoStart j) s =
              Some (set_cpc j (GoReturned None)
                     (Go_start (k_caddy (calls s ! j)) (k_fn (calls s ! j)) c' s)))
       \<and> (i < length (goroutines s) \<and> \<not> is_listener (goroutines s ! i)
            \<and> g_pc (goroutines s ! i) = InFn \<and> \<not> dead s \<longrightarrow>
            step (FnEnds m i) s = Some (set_pc i (Unwinding m) s))
       \<and> (i < length (goroutines s) \<and> g_pc (goroutines s ! i) = Unwinding m \<and> \<not> dead s \<longrightarrow>
            step (RunDeferred i) s =
              Some ((set_pc i (Ended m)
                       (wg_Add (wg (deref s (g_caddy (goroutines s ! i)))) (- 1) s))
                     \<lparr>dead := (m = Panicking)\<rparr>))
       \<and> (i < length (goroutines s) \<and> g_pc (goroutines s ! i) = Ended m \<longrightarrow>
            step (RunDeferred i) s = None \<and> step (FnEnds m' i) s = None)"
proof -
  have a: "wgs s w = int (length (pending s w))"
    by (rule pending_count[OF reachable_wf[OF assms]])
  have b: "valid s c \<and> \<not> onces s (o_once (deref s c)) \<longrightarrow>
            wgs (listen c s) = (wgs s)(wg (deref s c) := wgs s (wg (deref s c)) + 1)
            \<and> length (goroutines (listen c s)) = Suc (length (goroutines s))"
    by (simp add: listen_fields)
  have c: "valid s c \<and> fst (Go c f s) = None \<longrightarrow>
            wgs (snd (Go c f s)) =
              (wgs (listen c s))(wg (deref s c) := wgs (listen c s) (wg (deref s c)) + 1)
            \<and> length (goroutines (snd (Go c f s))) = Suc (length (goroutines (listen c s)))"
    by (auto simp: Go_unfold Let_def deref_listen copy_def wg_Add_def go_stmt_def deref_def
        nth_append valid_def caddies_listen split: if_splits)
  have d: "i < length (goroutines s) \<and> \<not> is_listener (goroutines s ! i)
            \<and> g_pc (goroutines s ! i) = InFn \<and> \<not> dead s \<longrightarrow>
            step (FnEnds m i) s = Some (set_pc i (Unwinding m) s)"
    by (simp add: step_def fn_ends_def)
  have e: "i < length (goroutines s) \<and> g_pc (goroutines s ! i) = Unwinding m \<and> \<not> dead s \<longrightarrow>
            step (RunDeferred i) s =
              Some ((set_pc i (Ended m)
                       (wg_Add (wg (deref s (g_caddy (goroutines s ! i)))) (- 1) s))
                     \<lparr>dead := (m = Panicking)\<rparr>)"
    using run_deferred_reachable[OF assms, of i m] by (simp add: step_def)
  have f: "i < length (goroutines s) \<and> g_pc (goroutines s ! i) = Ended m \<longrightarrow>
            step (RunDeferred i) s = None \<and> step (FnEnds m' i) s = None"
    by (simp add: step_def run_deferred_def fn_ends_def)
  have g: "wgs (Go_start c f c' s) = (wgs s)(wg (deref s c) := wgs s (wg (deref s c)) + 1)
       \<and> length (goroutines (Go_start c f c' s)) = Suc (length (goroutines s))"
    by (simp add: Go_start_def wg_Add_def go_stmt_def)
  have h: "j < length (calls s) \<and> k_pc (calls s ! j) = AtGoAdd c' \<and> \<not> dead s \<longrightarrow>
            step (GoStart j) s =
              Some (set_cpc j (GoReturned None)
                     (Go_start (k_caddy (calls s ! j)) (k_fn (calls s ! j)) c' s))"
    by (simp add: step_def go_start_def)
  show ?thesis using a b c d e f g h by simp
qed

theorem pending_paired_witness:
  "reachable demo_panicked \<and> wgs demo_panicked 0 = 2 \<and> length (pending demo_panicked 0) = 2
   \<and> 1 < length (goroutines demo_panicked)
   \<and> g_pc (goroutines demo_panicked ! 1) = Unwinding Panicking \<and> \<not> dead demo_panicked
   \<and> step (RunDeferred 1) demo_panicked =
       Some ((set_pc 1 (Ended Panicking) (wg_Add 0 (- 1) demo_panicked))\<lparr>dead := True\<rparr>)
   \<and> wgs (wg_Add 0 (- 1) demo_panicked) 0 = 1
   \<and> reachable demo_nonroot_calls \<and> 1 < length (calls demo_nonroot_calls)
   \<and> k_pc (calls demo_nonroot_calls ! 1) = AtGoAdd 1 \<and> \<not> dead demo_nonroot_calls
   \<and> step (GoStart 1) demo_nonroot_calls =
       Some (set_cpc 1 (GoReturned None) (Go_start 1 8 1 demo_nonroot_calls))
   \<and> wgs demo_nonroot_calls 0 = 2 \<and> wgs (Go_start 1 8 1 demo_nonroot_calls) 0 = 3"
proof -
  have r: "reachable demo_panicked"
    unfolding reachable_def using demo_panicked_run by blast
  have k: "wgs demo_panicked 0 = 2" "1 < length (goroutines demo_panicked)"
    "g_pc (goroutines demo_panicked ! 1) = Unwinding Panicking" "\<not> dead demo_panicked"
    "wg (deref demo_panicked (g_caddy (goroutines demo_panicked ! 1))) = 0"
    by (simp_all add: demo_panicked_def eval_defs)
  have a: "wgs demo_panicked 0 = 2 \<and> length (pending demo_panicked 0) = 2
   \<and> step (RunDeferred 1) demo_panicked =
       Some ((set_pc 1 (Ended Panicking) (wg_Add 0 (- 1) demo_panicked))\<lparr>dead := True\<rparr>)
   \<and> wgs (wg_Add 0 (- 1) demo_panicked) 0 = 1"
    using pending_paired[OF r, where w = 0 and c = 0 and f = 9 and i = 1 and m = Panicking
        and m' = Normally] r k by (simp add: wg_Add_def)
  have "run [CallNewCaddy False, CallGo 0 7, GoAdmit 0, GoStart 0, CallStop 0, CloseStop 0,
             CallGo 1 8, GoAdmit 1, CallGo 1 9] init = Some demo_nonroot_calls"
    by (simp add: demo_nonroot_calls_def demo_stopped_def eval_defs)
  then have r2: "reachable demo_nonroot_calls"
    unfolding reachable_def by blast
  have k2: "1 < length (calls demo_nonroot_calls)"
    "k_pc (calls demo_nonroot_calls ! 1) = AtGoAdd 1" "\<not> dead demo_nonroot_calls"
    "k_caddy (calls demo_nonroot_calls ! 1) = 1" "k_fn (calls demo_nonroot_calls ! 1) = 8"
    "wgs demo_nonroot_calls 0 = 2" "wg (deref demo_nonroot_calls 1) = 0"
    by (simp_all add: demo_nonroot_calls_def demo_stopped_def eval_defs)
  have b: "step (GoStart 1) demo_nonroot_calls =
       Some (set_cpc 1 (GoReturned None) (Go_start 1 8 1 demo_nonroot_calls))
     \<and> wgs (Go_start 1 8 1 demo_nonroot_calls) 0 = 3"
    using pending_paired[OF r2, where c = 1 and f = 8 and c' = 1 and j = 1] k2 by simp
  show ?thesis using a b r r2 k k2 by simp
qed

section \<open>The listener\<close>

lemma demo_two_run:
  "run [CallNewCaddy False, CallGo 0 7, GoAdmit 0, GoStart 0, CallStop 0, CallNewCaddy True] init = Some demo_two"
  by (simp add: demo_two_def eval_defs)

lemma fresh_unused:
  assumes "wf_world s"
  shows "\<not> onces s (fresh s)" and "\<not> stopChans s (fresh s)"
proof -
  have "listeners s (fresh s) = []"
    by (rule fresh_no_goroutine(1)[OF wf_parts(1)[OF assms]]) simp
  then show o: "\<not> onces s (fresh s)"
    using once_count[OF assms, of "fresh s"] by (simp split: if_splits)
  then show "\<not> stopChans s (fresh s)"
    using wf_parts(4)[OF assms] by (auto simp: inv_stop_def)
qed

lemma listener_close_reachable:
  assumes "reachable s" and "i < length (goroutines s)" and "is_listener (goroutines s ! i)"
    and "g_pc (goroutines s ! i) = AtClose"
  shows "\<not> stop_fired s (g_caddy (goroutines s ! i))"
    and "listener_close i s =
         Some (set_pc i (Unwinding Normally)
                (s\<lparr>stopChans := (stopChans s)(stopChan (deref s (g_caddy (goroutines s ! i))) := True)\<rparr>))"
proof -
  show n: "\<not> stop_fired s (g_caddy (goroutines s ! i))"
    using listener_at[OF reachable_wf[OF assms(1)] assms(2,3)] assms(4)
    by (simp add: listener_ok_def)
  then show "listener_close i s =
         Some (set_pc i (Unwinding Normally)
                (s\<lparr>stopChans := (stopChans s)(stopChan (deref s (g_caddy (goroutines s ! i))) := True)\<rparr>))"
    using assms(2,3,4) by (simp add: listener_close_def Let_def stop_fired_def)
qed

lemma stopChans_change:
  assumes "reachable s" and "step e s = Some s'" and "stopChans s' k \<noteq> stopChans s k"
  shows "stopChans s' k \<and> (\<exists>i. e = CloseStop i \<and> i < length (goroutines s)
           \<and> is_listener (goroutines s ! i)
           \<and> k = stopChan (deref s (g_caddy (goroutines s ! i))))"
proof -
  note p = step_perform[OF assms(2)]
  have "(stopChans s)(fresh s := False) = stopChans s"
    using fresh_unused(2)[OF reachable_wf[OF assms(1)]] by (simp add: fun_eq_iff)
  with perform_stopChans[of e s s'] p assms(3)
  obtain i where "e = CloseStop i" "i < length (goroutines s)" "is_listener (goroutines s ! i)"
    "stopChans s' = (stopChans s)(stopChan (deref s (g_caddy (goroutines s ! i))) := True)"
    by auto
  then show ?thesis using assms(3) by (auto split: if_splits)
qed

lemma boolCells_step:
  assumes "reachable s" and "step e s = Some s'" and "valid s c"
  shows "boolCells s' (notifyDefault (deref s' c)) = boolCells s (notifyDefault (deref s c))"
proof -
  have d: "deref s' c = deref s c" using step_deref[OF assms(2,3)] by simp
  have "notifyDefault (deref s c) < fresh s"
    using heap_caddy[OF wf_parts(1)[OF reachable_wf[OF assms(1)]] assms(3)[unfolded valid_def]]
    by (simp add: coherent_def deref_def)
  then show ?thesis
    using perform_boolCells[of e s s'] step_perform[OF assms(2)] d by auto
qed

lemma listener_leaves_receive:
  assumes "perform e s = Some s'" and "i < length (goroutines s)"
    and "g_pc (goroutines s ! i) = AtReceive" and "g_pc (goroutines s' ! i) \<noteq> AtReceive"
  shows "g_pc (goroutines s' ! i) = AtClose
       \<and> (e = Receive i \<or> (\<exists>c1 v1. e = SendSig c1 v1) \<or> (\<exists>c1. e = CallStop c1)
            \<or> (\<exists>ch1 v1. e = Deliver ch1 v1))"
  using assms
  by (cases e)
    (auto simp: op_defs case_prod_beta nth_append nth_update_read
      split: if_splits option.splits outcome.splits pc.splits cpc.splits sum.splits)

text \<open>
  Claim C7. In every reachable world at most one listener has been started under a Once,
  and one has exactly when the Once is done; \<^verbatim>\<open>listen\<close> (the only way \<^verbatim>\<open>Go\<close> and \<^verbatim>\<open>Looper\<close>
  reach the listener) does nothing when the Once is done. Where it starts the listener, it
  adds one to the Caddy's WaitGroup, the one \<^verbatim>\<open>Go\<close> uses, and the listener is among the
  goroutines that WaitGroup waits for; it registers sigChan for SIGINT and SIGTERM exactly
  when the cell behind notifyDefault is true, which is the argument of \<^verbatim>\<open>NewCaddy\<close> and is
  never written again. The listener leaves its receive by a receipt alone: a value handed
  over by a write into sigChan, by \<^verbatim>\<open>Stop\<close> or by the delivery of a registered signal, or
  the receive of a closed sigChan; each of these is enabled at a listener that stands at
  its receive, and each brings it to its \<^verbatim>\<open>close(c.stopChan)\<close>. A listener that has received
  closes stopChan, which was open till then, without a panic; and stopChan changes by no
  other step, and only from open to closed, so it is closed once.
\<close>

theorem listener_started_once:
  assumes "reachable s"
  shows "length (listeners s n) \<le> 1 \<and> (onces s n \<longleftrightarrow> listeners s n \<noteq> [])
       \<and> (valid s c \<and> onces s (o_once (deref s c)) \<longrightarrow> listen c s = s)
       \<and> (valid s c0 \<and> \<not> onces s (o_once (deref s c0)) \<longrightarrow>
            goroutines (listen c0 s) =
              goroutines s @ [\<lparr>g_caddy = c0, g_code = ListenClosure, g_pc = AtReceive\<rparr>]
            \<and> wgs (listen c0 s) = (wgs s)(wg (deref s c0) := wgs s (wg (deref s c0)) + 1)
            \<and> pending (listen c0 s) (wg (deref s c0)) =
                pending s (wg (deref s c0)) @
                  [\<lparr>g_caddy = c0, g_code = ListenClosure, g_pc = AtReceive\<rparr>]
            \<and> notified (listen c0 s) =
                notified s @ (if boolCells s (notifyDefault (deref s c0))
                              then [(sigChan (deref s c0), SIGINT), (sigChan (deref s c0), SIGTERM)]
                              else []))
       \<and> boolCells (snd (NewCaddy b s))
            (notifyDefault (deref (snd (NewCaddy b s)) (fst (NewCaddy b s)))) = b
       \<and> (step e s = Some s' \<and> valid s c \<longrightarrow>
            boolCells s' (notifyDefault (deref s' c)) = boolCells s (notifyDefault (deref s c)))
       \<and> (i < length (goroutines s) \<and> is_listener (goroutines s ! i)
            \<and> g_pc (goroutines s ! i) = AtClose \<and> \<not> dead s \<longrightarrow>
            \<not> stop_fired s (g_caddy (goroutines s ! i))
            \<and> step (CloseStop i) s =
                Some (set_pc i (Unwinding Normally)
                       (s\<lparr>stopChans :=
                            (stopChans s)(stopChan (deref s (g_caddy (goroutines s ! i))) := True)\<rparr>)))
       \<and> (step e s = Some s' \<and> stopChans s' k \<noteq> stopChans s k \<longrightarrow>
            stopChans s' k \<and> (\<exists>j. e = CloseStop j \<and> j < length (goroutines s)
              \<and> is_listener (goroutines s ! j)
              \<and> k = stopChan (deref s (g_caddy (goroutines s ! j)))))
       \<and> (i < length (goroutines s) \<and> is_listener (goroutines s ! i)
            \<and> g_pc (goroutines s ! i) = AtReceive
            \<and> sigChans s (sigChan (deref s (g_caddy (goroutines s ! i)))) \<and> \<not> dead s \<longrightarrow>
            step (Receive i) s = Some (set_pc i AtClose s))
       \<and> (valid s c \<and> \<not> sigChans s (SigChan s c)
            \<and> first_index (receiving s (SigChan s c)) (goroutines s) = Some i \<and> \<not> dead s \<longrightarrow>
            step (SendSig c v) s = Some (set_pc i AtClose s)
            \<and> step (CallStop c) s = Some (set_pc i AtClose s))
       \<and> ((ch, v) \<in> set (notified s) \<and> \<not> sigChans s ch
            \<and> first_index (receiving s ch) (goroutines s) = Some i \<and> \<not> dead s \<longrightarrow>
            step (Deliver ch v) s = Some (set_pc i AtClose s))
       \<and> (step e s = Some s' \<and> i < length (goroutines s)
            \<and> g_pc (goroutines s ! i) = AtReceive \<and> g_pc (goroutines s' ! i) \<noteq> AtReceive
            \<longrightarrow> g_pc (goroutines s' ! i) = AtClose
              \<and> (e = Receive i \<or> (\<exists>c1 v1. e = SendSig c1 v1) \<or> (\<exists>c1. e = CallStop c1)
                   \<or> (\<exists>ch1 v1. e = Deliver ch1 v1)))"
proof -
  note w = reachable_wf[OF assms]
  have r1: "i < length (goroutines s) \<and> is_listener (goroutines s ! i)
            \<and> g_pc (goroutines s ! i) = AtReceive
            \<and> sigChans s (sigChan (deref s (g_caddy (goroutines s ! i)))) \<and> \<not> dead s \<longrightarrow>
            step (Receive i) s = Some (set_pc i AtClose s)"
    by (simp add: step_def listener_receive_def)
  have r2: "valid s c \<and> \<not> sigChans s (SigChan s c)
            \<and> first_index (receiving s (SigChan s c)) (goroutines s) = Some i \<and> \<not> dead s \<longrightarrow>
            step (SendSig c v) s = Some (set_pc i AtClose s)
            \<and> step (CallStop c) s = Some (set_pc i AtClose s)"
    by (simp add: step_def Stop_def chan_send_def SigChan_def)
  have r3: "(ch, v) \<in> set (notified s) \<and> \<not> sigChans s ch
            \<and> first_index (receiving s ch) (goroutines s) = Some i \<and> \<not> dead s \<longrightarrow>
            step (Deliver ch v) s = Some (set_pc i AtClose s)"
    by (simp add: step_def signal_deliver_def chan_send_def)
  have r4: "step e s = Some s' \<and> i < length (goroutines s)
            \<and> g_pc (goroutines s ! i) = AtReceive \<and> g_pc (goroutines s' ! i) \<noteq> AtReceive
            \<longrightarrow> g_pc (goroutines s' ! i) = AtClose
              \<and> (e = Receive i \<or> (\<exists>c1 v1. e = SendSig c1 v1) \<or> (\<exists>c1. e = CallStop c1)
                   \<or> (\<exists>ch1 v1. e = Deliver ch1 v1))"
    using listener_leaves_receive[of e s s' i] step_perform[of e s s'] by blast
  have a: "length (listeners s n) \<le> 1 \<and> (onces s n \<longleftrightarrow> listeners s n \<noteq> [])"
    using once_count[OF w, of n] by (auto split: if_splits)
  have a': "valid s c \<and> onces s (o_once (deref s c)) \<longrightarrow> listen c s = s"
    by (simp add: listen_done)
  have b: "valid s c0 \<and> \<not> onces s (o_once (deref s c0)) \<longrightarrow>
            goroutines (listen c0 s) =
              goroutines s @ [\<lparr>g_caddy = c0, g_code = ListenClosure, g_pc = AtReceive\<rparr>]
            \<and> wgs (listen c0 s) = (wgs s)(wg (deref s c0) := wgs s (wg (deref s c0)) + 1)
            \<and> pending (listen c0 s) (wg (deref s c0)) =
                pending s (wg (deref s c0)) @
                  [\<lparr>g_caddy = c0, g_code = ListenClosure, g_pc = AtReceive\<rparr>]
            \<and> notified (listen c0 s) =
                notified s @ (if boolCells s (notifyDefault (deref s c0))
                              then [(sigChan (deref s c0), SIGINT), (sigChan (deref s c0), SIGTERM)]
                              else [])"
    by (simp add: listen_fields pending_def deref_listen live_def)
      (simp add: prim_defs)
  have c: "boolCells (snd (NewCaddy b s))
            (notifyDefault (deref (snd (NewCaddy b s)) (fst (NewCaddy b s)))) = b"
    by (simp add: NewCaddy_def Let_def deref_def)
  have c': "step e s = Some s' \<and> valid s c \<longrightarrow>
            boolCells s' (notifyDefault (deref s' c)) = boolCells s (notifyDefault (deref s c))"
    using boolCells_step[OF assms, of e s' c] by blast
  have d: "i < length (goroutines s) \<and> is_listener (goroutines s ! i)
            \<and> g_pc (goroutines s ! i) = AtClose \<and> \<not> dead s \<longrightarrow>
            \<not> stop_fired s (g_caddy (goroutines s ! i))
            \<and> step (CloseStop i) s =
                Some (set_pc i (Unwinding Normally)
                       (s\<lparr>stopChans :=
                            (stopChans s)(stopChan (deref s (g_caddy (goroutines s ! i))) := True)\<rparr>))"
    using listener_close_reachable[OF assms, of i] by (simp add: step_def)
  have d': "step e s = Some s' \<and> stopChans s' k \<noteq> stopChans s k \<longrightarrow>
            stopChans s' k \<and> (\<exists>j. e = CloseStop j \<and> j < length (goroutines s)
              \<and> is_listener (goroutines s ! j)
              \<and> k = stopChan (deref s (g_caddy (goroutines s ! j))))"
    using stopChans_change[OF assms, of e s' k] by blast
  show ?thesis using a a' b c c' d d' r1 r2 r3 r4 by blast
qed

theorem listener_started_once_witness:
  "(reachable demo_two \<and> length (listeners demo_two 0) \<le> 1 \<and> onces demo_two 0
   \<and> valid demo_two 0 \<and> listen 0 demo_two = demo_two
   \<and> valid demo_two 2 \<and> \<not> onces demo_two (o_once (deref demo_two 2))
   \<and> boolCells demo_two (notifyDefault (deref demo_two 2))
   \<and> notified (listen 2 demo_two) = [(1, SIGINT), (1, SIGTERM)]
   \<and> goroutines (listen 2 demo_two) =
       goroutines demo_two @ [\<lparr>g_caddy = 2, g_code = ListenClosure, g_pc = AtReceive\<rparr>]
   \<and> is_listener (goroutines demo_two ! 0) \<and> g_pc (goroutines demo_two ! 0) = AtClose
   \<and> \<not> dead demo_two \<and> \<not> stop_fired demo_two 0
   \<and> step (CloseStop 0) demo_two =
       Some (set_pc 0 (Unwinding Normally) (demo_two\<lparr>stopChans := (stopChans demo_two)(0 := True)\<rparr>))
   \<and> stopChans (set_pc 0 (Unwinding Normally)
                  (demo_two\<lparr>stopChans := (stopChans demo_two)(0 := True)\<rparr>)) 0)
   \<and> (reachable demo_notified \<and> valid demo_notified 0
        \<and> \<not> sigChans demo_notified (SigChan demo_notified 0)
        \<and> first_index (receiving demo_notified (SigChan demo_notified 0))
              (goroutines demo_notified) = Some 0
        \<and> \<not> dead demo_notified \<and> (0, SIGTERM) \<in> set (notified demo_notified)
        \<and> step (SendSig 0 SIGTERM) demo_notified = Some (set_pc 0 AtClose demo_notified)
        \<and> step (CallStop 0) demo_notified = Some (set_pc 0 AtClose demo_notified)
        \<and> step (Deliver 0 SIGTERM) demo_notified = Some (set_pc 0 AtClose demo_notified))
   \<and> (reachable demo_sigclosed \<and> is_listener (goroutines demo_sigclosed ! 0)
        \<and> g_pc (goroutines demo_sigclosed ! 0) = AtReceive
        \<and> sigChans demo_sigclosed
             (sigChan (deref demo_sigclosed (g_caddy (goroutines demo_sigclosed ! 0))))
        \<and> \<not> dead demo_sigclosed
        \<and> step (Receive 0) demo_sigclosed = Some (set_pc 0 AtClose demo_sigclosed))"
proof -
  have r: "reachable demo_two"
    unfolding reachable_def using demo_two_run by blast
  have k: "onces demo_two 0" "valid demo_two 0" "o_once (deref demo_two 0) = 0"
    "valid demo_two 2" "\<not> onces demo_two (o_once (deref demo_two 2))"
    "boolCells demo_two (notifyDefault (deref demo_two 2))" "sigChan (deref demo_two 2) = 1"
    "notified demo_two = []" "0 < length (goroutines demo_two)"
    "is_listener (goroutines demo_two ! 0)" "g_pc (goroutines demo_two ! 0) = AtClose"
    "\<not> dead demo_two" "stopChan (deref demo_two (g_caddy (goroutines demo_two ! 0))) = 0"
    "\<not> stop_fired demo_two 0"
    by (simp_all add: demo_two_def eval_defs)
  have f: "stopChans (set_pc 0 (Unwinding Normally)
                  (demo_two\<lparr>stopChans := (stopChans demo_two)(0 := True)\<rparr>)) 0"
    by (simp add: set_pc_def)
  have A: "reachable demo_two \<and> length (listeners demo_two 0) \<le> 1 \<and> onces demo_two 0
   \<and> valid demo_two 0 \<and> listen 0 demo_two = demo_two
   \<and> valid demo_two 2 \<and> \<not> onces demo_two (o_once (deref demo_two 2))
   \<and> boolCells demo_two (notifyDefault (deref demo_two 2))
   \<and> notified (listen 2 demo_two) = [(1, SIGINT), (1, SIGTERM)]
   \<and> goroutines (listen 2 demo_two) =
       goroutines demo_two @ [\<lparr>g_caddy = 2, g_code = ListenClosure, g_pc = AtReceive\<rparr>]
   \<and> is_listener (goroutines demo_two ! 0) \<and> g_pc (goroutines demo_two ! 0) = AtClose
   \<and> \<not> dead demo_two \<and> \<not> stop_fired demo_two 0
   \<and> step (CloseStop 0) demo_two =
       Some (set_pc 0 (Unwinding Normally) (demo_two\<lparr>stopChans := (stopChans demo_two)(0 := True)\<rparr>))
   \<and> stopChans (set_pc 0 (Unwinding Normally)
                  (demo_two\<lparr>stopChans := (stopChans demo_two)(0 := True)\<rparr>)) 0"
    using listener_started_once[OF r, where n = 0 and c = 0 and ?c0.0 = 2 and b = True
        and e = "CloseStop 0" and i = 0 and k = 0
        and s' = "set_pc 0 (Unwinding Normally)
                    (demo_two\<lparr>stopChans := (stopChans demo_two)(0 := True)\<rparr>)"]
      r k f
    by simp
  have qn: "run [CallNewCaddy True, CallGo 0 7, GoAdmit 0, GoStart 0] init = Some demo_notified"
    by (simp add: demo_notified_def eval_defs)
  then have rn: "reachable demo_notified" unfolding reachable_def by blast
  have kn: "valid demo_notified 0" "\<not> sigChans demo_notified (SigChan demo_notified 0)"
    "first_index (receiving demo_notified (SigChan demo_notified 0))
              (goroutines demo_notified) = Some 0"
    "\<not> dead demo_notified" "(0, SIGTERM) \<in> set (notified demo_notified)"
    "SigChan demo_notified 0 = 0"
    by (simp_all add: demo_notified_def eval_defs)
  have B: "step (SendSig 0 SIGTERM) demo_notified = Some (set_pc 0 AtClose demo_notified)
        \<and> step (CallStop 0) demo_notified = Some (set_pc 0 AtClose demo_notified)
        \<and> step (Deliver 0 SIGTERM) demo_notified = Some (set_pc 0 AtClose demo_notified)"
    using listener_started_once[OF rn, where c = 0 and i = 0 and v = SIGTERM and ch = 0] kn
    by simp
  have qc: "run [CallNewCaddy False, CallGo 0 7, GoAdmit 0, GoStart 0, CloseSig 0] init
            = Some demo_sigclosed"
    by (simp add: demo_sigclosed_def eval_defs)
  then have rc: "reachable demo_sigclosed" unfolding reachable_def by blast
  have kc: "0 < length (goroutines demo_sigclosed)" "is_listener (goroutines demo_sigclosed ! 0)"
    "g_pc (goroutines demo_sigclosed ! 0) = AtReceive"
    "sigChans demo_sigclosed
       (sigChan (deref demo_sigclosed (g_caddy (goroutines demo_sigclosed ! 0))))"
    "\<not> dead demo_sigclosed"
    by (simp_all add: demo_sigclosed_def eval_defs)
  have C: "step (Receive 0) demo_sigclosed = Some (set_pc 0 AtClose demo_sigclosed)"
    using listener_started_once[OF rc, where i = 0] kc by simp
  show ?thesis using A B C rn kn(1-5) rc kc(2-5) by blast
qed

section \<open>Stop, repeated\<close>

lemma first_index_None: "first_index P xs = None \<longleftrightarrow> \<not> list_ex P xs"
  by (induction xs) auto

lemma first_index_Some: "first_index P xs = Some k \<Longrightarrow> k < length xs \<and> P (xs ! k)"
  by (induction xs arbitrary: k) (auto split: if_splits)

lemma Stop_cases:
  "Stop c s = Panics s \<longleftrightarrow> sigChans s (SigChan s c)"
  "(\<exists>s'. Stop c s = Completes s') \<longleftrightarrow> \<not> sigChans s (SigChan s c) \<and> listening s (SigChan s c)"
  "Stop c s = Blocks \<longleftrightarrow> \<not> sigChans s (SigChan s c) \<and> \<not> listening s (SigChan s c)"
  using first_index_None[of "receiving s (SigChan s c)" "goroutines s"]
  by (auto simp: Stop_def chan_send_def SigChan_def listening_def split: option.splits)

lemma spent_step:
  assumes r: "reachable s" and v: "valid s c" and st: "step e s = Some s'"
    and o: "onces s (o_once (deref s c))" and nl: "\<not> listening s (SigChan s c)"
  shows "onces s' (o_once (deref s' c)) \<and> \<not> listening s' (SigChan s' c)"
proof -
  let ?n = "o_once (deref s c)"
  note w = reachable_wf[OF r]
  note w' = reachable_wf[OF reachable_step[OF r st]]
  note p = step_perform[OF st]
  have dc: "deref s' c = deref s c" using step_deref[OF st v] by simp
  have cc: "coherent (deref s c)"
    using heap_caddy[OF wf_parts(1)[OF w] v[unfolded valid_def]] by (simp add: deref_def)
  from o once_count[OF w, of ?n] have "listeners s ?n \<noteq> []" by auto
  then obtain g where "g \<in> set (listeners s ?n)" by (cases "listeners s ?n") auto
  then obtain k where k: "k < length (goroutines s)" and lk: "is_listener (goroutines s ! k)"
    and ok: "o_once (deref s (g_caddy (goroutines s ! k))) = ?n"
    by (auto simp: listeners_def in_set_conv_nth)
  have vk: "valid s (g_caddy (goroutines s ! k))"
    using heap_goroutine[OF wf_parts(1)[OF w] nth_mem[OF k]] by (simp add: valid_def)
  note fk = perform_goroutine[OF conjunct1[OF p] k]
  have k': "k < length (goroutines s')" and lk': "is_listener (goroutines s' ! k)"
    and gk': "g_caddy (goroutines s' ! k) = g_caddy (goroutines s ! k)"
    using fk lk by (simp_all add: is_listener_def)
  have ok': "o_once (deref s' (g_caddy (goroutines s' ! k))) = ?n"
    using step_deref[OF st vk] ok gk' by simp
  have o': "onces s' ?n"
    using listener_in_listeners[OF k' lk'] ok' once_count[OF w', of ?n]
    by (auto split: if_splits)
  have ck: "coherent (deref s (g_caddy (goroutines s ! k)))"
    by (rule goroutine_coherent[OF w k])
  have "\<not> receiving s (SigChan s c) (goroutines s ! k)"
    using nl k by (auto simp: listening_def list_ex_iff)
  then have nk: "g_pc (goroutines s ! k) \<noteq> AtReceive"
    using lk ok ck cc by (simp add: receiving_def SigChan_def coherent_def)
  have "\<not> receiving s' (SigChan s' c) x" if x: "x \<in> set (goroutines s')" for x
  proof
    assume rx: "receiving s' (SigChan s' c) x"
    from x obtain j where j: "j < length (goroutines s')" and xj: "x = goroutines s' ! j"
      by (auto simp: in_set_conv_nth)
    have lj: "is_listener (goroutines s' ! j)" and aj: "g_pc (goroutines s' ! j) = AtReceive"
      and sj: "sigChan (deref s' (g_caddy (goroutines s' ! j))) = sigChan (deref s c)"
      using rx xj dc by (simp_all add: receiving_def SigChan_def)
    have "coherent (deref s' (g_caddy (goroutines s' ! j)))"
      by (rule goroutine_coherent[OF w' j])
    then have "o_once (deref s' (g_caddy (goroutines s' ! j))) = ?n"
      using sj cc by (simp add: coherent_def)
    then have "j = k"
      using listener_unique[OF w' j k' lj lk'] ok' by simp
    then show False using aj fk nk by simp
  qed
  then have "\<not> listening s' (SigChan s' c)"
    by (auto simp: listening_def list_ex_iff)
  then show ?thesis using o' dc by simp
qed

lemma spent_run:
  assumes "reachable s" and "valid s c" and "run es s = Some s'"
    and "onces s (o_once (deref s c))" and "\<not> listening s (SigChan s c)"
  shows "valid s' c \<and> onces s' (o_once (deref s' c)) \<and> \<not> listening s' (SigChan s' c)"
  using assms
proof (induction es arbitrary: s)
  case Nil
  then show ?case by simp
next
  case (Cons e es)
  from Cons.prems(3) obtain s1 where s1: "step e s = Some s1" and r1: "run es s1 = Some s'"
    by (auto split: option.splits)
  show ?case
    using Cons.IH[OF reachable_step[OF Cons.prems(1) s1] _ r1]
      spent_step[OF Cons.prems(1,2) s1 Cons.prems(4,5)] step_deref[OF s1 Cons.prems(2)]
    by simp
qed

text \<open>
  Claim C4, as amended. \<^verbatim>\<open>Stop\<close> is one send on sigChan: it completes exactly when the
  channel is open and a listener stands at its receive, it panics exactly when the channel
  has been closed, and it blocks otherwise. It is not safe to repeat: once the Once is done
  and the listener has left its receive, no later \<^verbatim>\<open>Stop\<close> on that coordinator completes, in
  any world any run leads to; it blocks, or panics when the channel has been closed.
\<close>

theorem Stop_outcome:
  assumes "reachable s" and "valid s c"
  shows "(Stop c s = Panics s \<longleftrightarrow> sigChans s (SigChan s c))
       \<and> ((\<exists>s1. Stop c s = Completes s1) \<longleftrightarrow>
            \<not> sigChans s (SigChan s c) \<and> listening s (SigChan s c))
       \<and> (Stop c s = Blocks \<longleftrightarrow> \<not> sigChans s (SigChan s c) \<and> \<not> listening s (SigChan s c))
       \<and> (onces s (o_once (deref s c)) \<and> \<not> listening s (SigChan s c) \<and> run es s = Some s'
            \<longrightarrow> Stop c s' = Blocks \<or> Stop c s' = Panics s')"
proof -
  have "Stop c s' = Blocks \<or> Stop c s' = Panics s'"
    if "onces s (o_once (deref s c))" "\<not> listening s (SigChan s c)" "run es s = Some s'"
    using spent_run[OF assms that(3,1,2)] Stop_cases(1,3)[of c s'] by blast
  then show ?thesis using Stop_cases[of c s] by blast
qed

theorem Stop_outcome_witness:
  "reachable demo_requested \<and> valid demo_requested 0
   \<and> onces demo_requested (o_once (deref demo_requested 0))
   \<and> \<not> listening demo_requested (SigChan demo_requested 0)
   \<and> run [CloseStop 0, RunDeferred 0] demo_requested = Some demo_fired
   \<and> \<not> sigChans demo_requested (SigChan demo_requested 0)
   \<and> Stop 0 demo_requested = Blocks
   \<and> \<not> sigChans demo_fired (SigChan demo_fired 0)
   \<and> Stop 0 demo_fired = Blocks"
proof -
  have q: "run [CallNewCaddy False, CallGo 0 7, GoAdmit 0, GoStart 0, CallStop 0] init = Some demo_requested"
    by (simp add: demo_requested_def eval_defs)
  then have r: "reachable demo_requested" unfolding reachable_def by blast
  have k: "valid demo_requested 0" "onces demo_requested (o_once (deref demo_requested 0))"
    "\<not> listening demo_requested (SigChan demo_requested 0)"
    "\<not> sigChans demo_requested (SigChan demo_requested 0)"
    by (simp_all add: demo_requested_def eval_defs listening_def)
  have f: "run [CloseStop 0, RunDeferred 0] demo_requested = Some demo_fired"
    by (simp add: demo_fired_def demo_requested_def eval_defs)
  have c: "\<not> sigChans demo_fired (SigChan demo_fired 0)"
    by (simp add: demo_fired_def demo_requested_def eval_defs)
  have p: "Stop 0 demo_fired \<noteq> Panics demo_fired"
    using c Stop_cases(1)[of 0 demo_fired] by simp
  show ?thesis
    using Stop_outcome[OF r k(1), of "[CloseStop 0, RunDeferred 0]" demo_fired] r k f c p
    by simp
qed

text \<open>
  The claim as stated fails: after a first \<^verbatim>\<open>Stop\<close> a second one blocks, and after a close
  of the channel it panics.
\<close>

theorem Stop_repeated:
  "run [CallNewCaddy False, CallGo 0 7, GoAdmit 0, GoStart 0, CallStop 0] init = Some demo_requested
   \<and> Stop 0 demo_requested = Blocks
   \<and> run [CallNewCaddy False, CallGo 0 7, GoAdmit 0, GoStart 0, CallStop 0, CloseSig 0] init = Some demo_closed
   \<and> Stop 0 demo_closed = Panics demo_closed"
  by (simp add: demo_requested_def demo_closed_def eval_defs)

section \<open>Stop, a write into SigChan, and its close\<close>

text \<open>
  Claim C6, as amended. In a reachable world where sigChan is open and listener \<open>i\<close>
  stands at its receive on it, \<^verbatim>\<open>Stop\<close> and a write of any value \<open>v\<close> into the channel of
  \<^verbatim>\<open>SigChan\<close> have the identical effect: the listener receives and closes stopChan, and the
  two worlds are the same world. A close of that channel has the same effect on the
  listener and on stopChan, and the world after it is that world but for sigChan, which is
  then closed. stopChan of the Caddy was open before and is closed after, by the same
  close of the same channel.
\<close>

theorem stop_requests_agree:
  assumes "reachable s" and "valid s c" and "\<not> dead s" and "\<not> sigChans s (SigChan s c)"
    and "first_index (receiving s (SigChan s c)) (goroutines s) = Some i"
  shows "let s1 = set_pc i (Unwinding Normally)
                    ((set_pc i AtClose s)\<lparr>stopChans := (stopChans s)(Stopping s c := True)\<rparr>)
         in run [CallStop c, CloseStop i] s = Some s1
          \<and> run [SendSig c v, CloseStop i] s = Some s1
          \<and> run [CloseSig c, Receive i, CloseStop i] s =
              Some (s1\<lparr>sigChans := (sigChans s)(SigChan s c := True)\<rparr>)
          \<and> \<not> stop_fired s c \<and> stop_fired s1 c"
proof -
  let ?ch = "SigChan s c"
  let ?gi = "goroutines s ! i"
  note w = reachable_wf[OF assms(1)]
  from first_index_Some[OF assms(5)]
  have il: "i < length (goroutines s)" and li: "is_listener ?gi" and ai: "g_pc ?gi = AtReceive"
    and si: "sigChan (deref s (g_caddy ?gi)) = sigChan (deref s c)"
    by (simp_all add: receiving_def SigChan_def)
  have cc: "coherent (deref s c)"
    using heap_caddy[OF wf_parts(1)[OF w] assms(2)[unfolded valid_def]] by (simp add: deref_def)
  have ci: "coherent (deref s (g_caddy ?gi))" by (rule goroutine_coherent[OF w il])
  have st: "stopChan (deref s (g_caddy ?gi)) = Stopping s c"
    using si cc ci by (simp add: coherent_def Stopping_def)
  have nf: "\<not> stopChans s (Stopping s c)"
    using listener_at[OF w il li] ai st by (simp add: listener_ok_def stop_fired_def)
  let ?s2 = "set_pc i AtClose s"
  let ?s1 = "set_pc i (Unwinding Normally) (?s2\<lparr>stopChans := (stopChans s)(Stopping s c := True)\<rparr>)"
  have send: "chan_send ?ch x s = Completes ?s2" for x
    using assms(4,5) by (simp add: chan_send_def)
  have close2: "listener_close i ?s2 = Some ?s1"
    using il li ai st nf
    by (simp add: listener_close_def set_pc_def is_listener_def deref_def Let_def)
  have a: "run [CallStop c, CloseStop i] s = Some ?s1"
    using assms(2,3) send close2 by (simp add: step_def Stop_def SigChan_def set_pc_def)
  have b: "run [SendSig c v, CloseStop i] s = Some ?s1"
    using assms(2,3) send close2 by (simp add: step_def set_pc_def)
  let ?s3 = "s\<lparr>sigChans := (sigChans s)(?ch := True)\<rparr>"
  have c1: "step (CloseSig c) s = Some ?s3"
    using assms(2,3,4) by (simp add: step_def chan_close_def)
  have c2: "step (Receive i) ?s3 = Some (set_pc i AtClose ?s3)"
    using assms(3) il li ai si
    by (simp add: step_def listener_receive_def SigChan_def deref_def)
  have c3: "step (CloseStop i) (set_pc i AtClose ?s3) =
            Some (?s1\<lparr>sigChans := (sigChans s)(?ch := True)\<rparr>)"
    using assms(3) il li ai st nf
    by (simp add: step_def listener_close_def set_pc_def is_listener_def deref_def Let_def)
  have c: "run [CloseSig c, Receive i, CloseStop i] s =
           Some (?s1\<lparr>sigChans := (sigChans s)(?ch := True)\<rparr>)"
    using c1 c2 c3 by simp
  have d: "\<not> stop_fired s c" "stop_fired ?s1 c"
    using nf by (simp_all add: stop_fired_def Stopping_def set_pc_def deref_def)
  show ?thesis unfolding Let_def using a b c d by simp
qed

theorem stop_requests_agree_witness:
  "reachable demo_started \<and> valid demo_started 0 \<and> \<not> dead demo_started
   \<and> \<not> sigChans demo_started (SigChan demo_started 0)
   \<and> first_index (receiving demo_started (SigChan demo_started 0)) (goroutines demo_started)
       = Some 0
   \<and> run [CallStop 0, CloseStop 0] demo_started = Some demo_stopped
   \<and> run [SendSig 0 (SIG 29), CloseStop 0] demo_started = Some demo_stopped
   \<and> run [CloseSig 0, Receive 0, CloseStop 0] demo_started =
       Some (demo_stopped\<lparr>sigChans := (sigChans demo_started)(SigChan demo_started 0 := True)\<rparr>)
   \<and> \<not> stop_fired demo_started 0 \<and> stop_fired demo_stopped 0"
proof -
  have r: "reachable demo_started"
    unfolding reachable_def using demo_started_run by blast
  have k: "valid demo_started 0" "\<not> dead demo_started"
    "\<not> sigChans demo_started (SigChan demo_started 0)"
    "first_index (receiving demo_started (SigChan demo_started 0)) (goroutines demo_started)
       = Some 0"
    by (simp_all add: demo_started_def eval_defs)
  have e: "set_pc 0 (Unwinding Normally)
             ((set_pc 0 AtClose demo_started)
                \<lparr>stopChans := (stopChans demo_started)(Stopping demo_started 0 := True)\<rparr>)
           = demo_stopped"
    by (simp add: demo_started_def demo_stopped_def eval_defs Stopping_def)
  show ?thesis
    using stop_requests_agree[OF r k, of "SIG 29"] r k unfolding Let_def e by simp
qed

text \<open>
  The claim as stated fails where it makes a close the same as a write. After the close the
  channel stays closed: where a later \<^verbatim>\<open>Stop\<close> blocks after a write or a \<^verbatim>\<open>Stop\<close>, it panics
  after a close. And on a coordinator whose listener has not been started a \<^verbatim>\<open>Stop\<close> blocks
  where a close completes.
\<close>

theorem close_is_not_a_write:
  "run [CallStop 0, CloseStop 0] demo_started = Some demo_stopped
   \<and> run [CloseSig 0, Receive 0, CloseStop 0] demo_started = Some demo_close_fired
   \<and> Stop 0 demo_stopped = Blocks
   \<and> Stop 0 demo_close_fired = Panics demo_close_fired
   \<and> Stop 0 demo_unstarted = Blocks
   \<and> chan_close (SigChan demo_unstarted 0) demo_unstarted = Completes demo_preclosed"
  by (simp add: demo_started_def demo_stopped_def demo_close_fired_def demo_unstarted_def
      demo_preclosed_def eval_defs)

section \<open>The loop of Looper and the stop\<close>

lemma looper_valid:
  "reachable s \<Longrightarrow> i < length (loopers s) \<Longrightarrow> valid s (l_caddy (loopers s ! i))"
  using wf_parts(1)[OF reachable_wf, of s] by (simp add: inv_heap_def list_all_length valid_def)

lemma stop_fired_step:
  assumes "reachable s" and "valid s c" and "stop_fired s c" and "step e s = Some s'"
  shows "stop_fired s' c"
  using stopChans_change[OF assms(1,4), of "stopChan (deref s c)"] step_deref[OF assms(4,2)]
    assms(3)
  by (auto simp: stop_fired_def)

lemma recheck_fired:
  assumes "step (Recheck i) s = Some s'" and "stop_fired s (l_caddy (loopers s ! i))"
  shows "l_pc (loopers s' ! i) = Returned"
  using assms by (auto simp: step_def recheck_def set_lpc_def split: if_splits)

lemma fn_starts_fired:
  assumes "reachable s" and "i < length (loopers s)"
    and "stop_fired s (l_caddy (loopers s ! i))"
  shows "fn_starts i es s = 0"
  using assms
proof (induction es arbitrary: s)
  case Nil
  then show ?case by simp
next
  case (Cons e es)
  show ?case
  proof (cases "step e s")
    case None
    then show ?thesis by simp
  next
    case (Some s1)
    note f = perform_looper[OF conjunct1[OF step_perform[OF Some]] Cons.prems(2)]
    have "stop_fired s1 (l_caddy (loopers s ! i))"
      by (rule stop_fired_step[OF Cons.prems(1) looper_valid[OF Cons.prems(1,2)]
            Cons.prems(3) Some])
    then have "fn_starts i es s1 = 0"
      using Cons.IH[OF reachable_step[OF Cons.prems(1) Some]] f by simp
    moreover have "\<not> (e = Recheck i \<and> l_pc (loopers s1 ! i) = InLoopFn)"
      using recheck_fired[of i s s1] Some Cons.prems(3) by auto
    ultimately show ?thesis using Some by simp
  qed
qed

lemma fn_starts_returned:
  assumes "i < length (loopers s)" and "l_pc (loopers s ! i) = Returned"
    and "run es s = Some s'"
  shows "l_pc (loopers s' ! i) = Returned \<and> fn_starts i es s = 0"
  using assms
proof (induction es arbitrary: s)
  case Nil
  then show ?case by simp
next
  case (Cons e es)
  from Cons.prems(3) obtain s1 where s1: "step e s = Some s1" and r1: "run es s1 = Some s'"
    by (auto split: option.splits)
  note f = perform_looper[OF conjunct1[OF step_perform[OF s1]] Cons.prems(1)]
  have "l_pc (loopers s1 ! i) \<noteq> InLoopFn" using f Cons.prems(2) by simp
  then show ?case using Cons.IH[OF _ _ r1] f Cons.prems(2) s1 by simp
qed

lemma looper_exit:
  assumes "perform e s = Some s'" and "i < length (loopers s)"
    and "l_pc (loopers s ! i) \<noteq> Returned" and "l_pc (loopers s' ! i) = Returned"
  shows "stop_fired s (l_caddy (loopers s ! i)) \<and> (e = SelectStop i \<or> e = Recheck i)"
  using assms
  by (cases e)
    (auto simp: op_defs case_prod_beta nth_append nth_update_read
      split: if_splits option.splits outcome.splits pc.splits exit_mode.splits cpc.splits sum.splits)

lemma looper_enter:
  assumes "perform e s = Some s'" and "i < length (loopers s)"
    and "l_pc (loopers s ! i) \<noteq> InLoopFn" and "l_pc (loopers s' ! i) = InLoopFn"
  shows "e = Recheck i \<and> \<not> stop_fired s (l_caddy (loopers s ! i))"
  using assms
  by (cases e)
    (auto simp: op_defs case_prod_beta nth_append nth_update_read
      split: if_splits option.splits outcome.splits pc.splits exit_mode.splits cpc.splits
        sum.splits)

text \<open>
  What the loop does keep. At its outer select it takes the stop exactly when stopChan is
  closed, and returns; it takes a tick when one is ready, and then reads stopChan again:
  closed, it returns, and only when open does it call \<^verbatim>\<open>f()\<close>; a loop under way comes into
  \<^verbatim>\<open>f()\<close> by that read alone, and from \<^verbatim>\<open>f()\<close> it goes back to its outer select, or unwinds
  when \<^verbatim>\<open>f()\<close> panics. Once stopChan is closed the loop starts \<^verbatim>\<open>f()\<close> no more, along any run;
  once it has returned it stays returned; and it returns only by one of its two reads of a
  closed stopChan.
\<close>

theorem Looper_after_stop:
  assumes "reachable s" and "i < length (loopers s)"
  shows "(l_pc (loopers s ! i) = AtSelect \<and> \<not> dead s \<longrightarrow>
            step (SelectStop i) s =
              (if stop_fired s (l_caddy (loopers s ! i)) then Some (set_lpc i Returned s)
               else None)
            \<and> step (SelectTick i) s =
              (if tick_ready (loopers s ! i) then Some (set_lpc i AtRecheck (set_tick i False s))
               else None))
       \<and> (l_pc (loopers s ! i) = AtRecheck \<and> \<not> dead s \<longrightarrow>
            step (Recheck i) s =
              Some (set_lpc i (if stop_fired s (l_caddy (loopers s ! i)) then Returned
                               else InLoopFn) s))
       \<and> (stop_fired s (l_caddy (loopers s ! i)) \<longrightarrow> fn_starts i es s = 0)
       \<and> (l_pc (loopers s ! i) = Returned \<and> run es s = Some s' \<longrightarrow>
            l_pc (loopers s' ! i) = Returned \<and> fn_starts i es s = 0)
       \<and> (step e s = Some s' \<and> l_pc (loopers s ! i) \<noteq> Returned
            \<and> l_pc (loopers s' ! i) = Returned \<longrightarrow>
            stop_fired s (l_caddy (loopers s ! i)) \<and> (e = SelectStop i \<or> e = Recheck i))
       \<and> (step e s = Some s' \<and> l_pc (loopers s ! i) \<noteq> InLoopFn
            \<and> l_pc (loopers s' ! i) = InLoopFn \<longrightarrow>
            e = Recheck i \<and> \<not> stop_fired s (l_caddy (loopers s ! i)))
       \<and> (l_pc (loopers s ! i) = InLoopFn \<and> \<not> dead s \<longrightarrow>
            step (LoopFnEnds Normally i) s = Some (set_lpc i AtSelect s)
            \<and> step (LoopFnEnds Panicking i) s = Some (set_lpc i Unwound s))"
proof -
  have a: "l_pc (loopers s ! i) = AtSelect \<and> \<not> dead s \<longrightarrow>
            step (SelectStop i) s =
              (if stop_fired s (l_caddy (loopers s ! i)) then Some (set_lpc i Returned s)
               else None)
            \<and> step (SelectTick i) s =
              (if tick_ready (loopers s ! i) then Some (set_lpc i AtRecheck (set_tick i False s))
               else None)"
    using assms(2) by (simp add: step_def select_stop_def select_tick_def)
  have b: "l_pc (loopers s ! i) = AtRecheck \<and> \<not> dead s \<longrightarrow>
            step (Recheck i) s =
              Some (set_lpc i (if stop_fired s (l_caddy (loopers s ! i)) then Returned
                               else InLoopFn) s)"
    using assms(2) by (simp add: step_def recheck_def)
  have c: "stop_fired s (l_caddy (loopers s ! i)) \<longrightarrow> fn_starts i es s = 0"
    using fn_starts_fired[OF assms] by simp
  have d: "l_pc (loopers s ! i) = Returned \<and> run es s = Some s' \<longrightarrow>
            l_pc (loopers s' ! i) = Returned \<and> fn_starts i es s = 0"
    using fn_starts_returned[OF assms(2)] by blast
  have e: "step e s = Some s' \<and> l_pc (loopers s ! i) \<noteq> Returned
            \<and> l_pc (loopers s' ! i) = Returned \<longrightarrow>
            stop_fired s (l_caddy (loopers s ! i)) \<and> (e = SelectStop i \<or> e = Recheck i)"
    using looper_exit[OF _ assms(2), of e s'] step_perform[of e s s'] by blast
  have f: "step e s = Some s' \<and> l_pc (loopers s ! i) \<noteq> InLoopFn
            \<and> l_pc (loopers s' ! i) = InLoopFn \<longrightarrow>
            e = Recheck i \<and> \<not> stop_fired s (l_caddy (loopers s ! i))"
    using looper_enter[OF _ assms(2), of e s'] step_perform[of e s s'] by blast
  have g: "l_pc (loopers s ! i) = InLoopFn \<and> \<not> dead s \<longrightarrow>
            step (LoopFnEnds Normally i) s = Some (set_lpc i AtSelect s)
            \<and> step (LoopFnEnds Panicking i) s = Some (set_lpc i Unwound s)"
    using assms(2) by (simp add: step_def loop_fn_ends_def)
  show ?thesis using a b c d e f g by blast
qed

theorem Looper_after_stop_witness:
  "reachable demo_loop_select \<and> 0 < length (loopers demo_loop_select)
   \<and> l_pc (loopers demo_loop_select ! 0) = AtSelect \<and> \<not> dead demo_loop_select
   \<and> stop_fired demo_loop_select (l_caddy (loopers demo_loop_select ! 0))
   \<and> step (SelectStop 0) demo_loop_select = Some (set_lpc 0 Returned demo_loop_select)
   \<and> l_pc (loopers (set_lpc 0 Returned demo_loop_select) ! 0) = Returned
   \<and> fn_starts 0 [SelectTick 0, Recheck 0] demo_loop_select = 0
   \<and> reachable demo_loop_recheck \<and> 0 < length (loopers demo_loop_recheck)
   \<and> l_pc (loopers demo_loop_recheck ! 0) = AtRecheck \<and> \<not> dead demo_loop_recheck
   \<and> stop_fired demo_loop_recheck (l_caddy (loopers demo_loop_recheck ! 0))
   \<and> step (Recheck 0) demo_loop_recheck = Some (set_lpc 0 Returned demo_loop_recheck)"
proof -
  have q1: "run [CallNewCaddy False, CallLooper 0 0 False 5, CallStop 0, CloseStop 0] init
            = Some demo_loop_select"
    by (simp add: demo_loop_select_def eval_defs)
  then have r1: "reachable demo_loop_select" unfolding reachable_def by blast
  have k1: "0 < length (loopers demo_loop_select)"
    "l_pc (loopers demo_loop_select ! 0) = AtSelect" "\<not> dead demo_loop_select"
    "stop_fired demo_loop_select (l_caddy (loopers demo_loop_select ! 0))"
    "l_pc (loopers (set_lpc 0 Returned demo_loop_select) ! 0) = Returned"
    by (simp_all add: demo_loop_select_def eval_defs)
  have q2: "run [CallNewCaddy False, CallLooper 0 0 False 5, SelectTick 0, CallStop 0,
                 CloseStop 0] init = Some demo_loop_recheck"
    by (simp add: demo_loop_recheck_def eval_defs)
  then have r2: "reachable demo_loop_recheck" unfolding reachable_def by blast
  have k2: "0 < length (loopers demo_loop_recheck)"
    "l_pc (loopers demo_loop_recheck ! 0) = AtRecheck" "\<not> dead demo_loop_recheck"
    "stop_fired demo_loop_recheck (l_caddy (loopers demo_loop_recheck ! 0))"
    by (simp_all add: demo_loop_recheck_def eval_defs)
  have a: "step (SelectStop 0) demo_loop_select = Some (set_lpc 0 Returned demo_loop_select)
           \<and> fn_starts 0 [SelectTick 0, Recheck 0] demo_loop_select = 0"
    using Looper_after_stop[OF r1 k1(1), of "[SelectTick 0, Recheck 0]"] k1
    by (simp del: fn_starts.simps)
  have b: "step (Recheck 0) demo_loop_recheck = Some (set_lpc 0 Returned demo_loop_recheck)"
    using Looper_after_stop[OF r2 k2(1)] k2 by simp
  show ?thesis using r1 k1 r2 k2 a b by (simp del: fn_starts.simps)
qed

text \<open>
  Claim C5. The loop is to perform at most one further iteration after a stop request, and
  \<^verbatim>\<open>Test_Looper_Zero_Duration\<close> expects none once \<^verbatim>\<open>Stop\<close> has returned during the third call
  of \<^verbatim>\<open>f()\<close>. The code does not keep it: in the test's world at that point stopChan is
  still open, because the listener closes it in its own goroutine after \<^verbatim>\<open>Stop\<close> has
  returned, and until it does both reads of stopChan in the loop find it open. Here
  \<^verbatim>\<open>Stop\<close> completes while the loop is in its third call of \<^verbatim>\<open>f()\<close> and stopChan is open;
  the third call returns and the loop starts \<^verbatim>\<open>f()\<close> twice more.
\<close>

theorem Looper_after_request:
  "run [CallNewCaddy False, CallGo 0 7, GoAdmit 0, GoStart 0, CallLooper 1 0 False 5,
        SelectTick 0, Recheck 0, LoopFnEnds Normally 0,
        SelectTick 0, Recheck 0, LoopFnEnds Normally 0,
        SelectTick 0, Recheck 0, CallStop 0] init = Some demo_looping
   \<and> Stop 0 (the (run [CallNewCaddy False, CallGo 0 7, GoAdmit 0, GoStart 0,
                         CallLooper 1 0 False 5,
                         SelectTick 0, Recheck 0, LoopFnEnds Normally 0,
                         SelectTick 0, Recheck 0, LoopFnEnds Normally 0,
                         SelectTick 0, Recheck 0] init)) = Completes demo_looping
   \<and> l_pc (loopers demo_looping ! 0) = InLoopFn
   \<and> \<not> stop_fired demo_looping (l_caddy (loopers demo_looping ! 0))
   \<and> fn_starts 0 [LoopFnEnds Normally 0, SelectTick 0, Recheck 0,
                   LoopFnEnds Normally 0, SelectTick 0, Recheck 0] demo_looping = 2"
  by (simp add: demo_looping_def eval_defs)

section \<open>Go on a root Caddy after the stop\<close>

lemma perform_call_keep:
  assumes "perform e s = Some s'" and "k < length (calls s)"
  shows "k < length (calls s')
       \<and> k_caddy (calls s' ! k) = k_caddy (calls s ! k)
       \<and> k_fn (calls s' ! k) = k_fn (calls s ! k)
       \<and> (k_pc (calls s ! k) = GoReturned r \<longrightarrow> k_pc (calls s' ! k) = GoReturned r)"
  using assms
  by (cases e)
    (auto simp: op_defs case_prod_beta nth_append nth_update_read
      split: if_splits option.splits outcome.splits pc.splits cpc.splits sum.splits)

lemma run_call_keep:
  assumes "run es s = Some s'" and "k < length (calls s)"
  shows "k < length (calls s') \<and> k_caddy (calls s' ! k) = k_caddy (calls s ! k)"
  using assms
proof (induction es arbitrary: s)
  case Nil
  then show ?case by simp
next
  case (Cons e es)
  from Cons.prems(1) obtain s1 where s1: "step e s = Some s1" and r1: "run es s1 = Some s'"
    by (auto split: option.splits)
  note f = perform_call_keep[OF conjunct1[OF step_perform[OF s1]] Cons.prems(2), of None]
  show ?case using Cons.IH[OF r1] f by simp
qed

lemma run_deref:
  assumes "run es s = Some s'" and "valid s c"
  shows "valid s' c \<and> deref s' c = deref s c"
  using assms
proof (induction es arbitrary: s)
  case Nil
  then show ?case by simp
next
  case (Cons e es)
  from Cons.prems(1) obtain s1 where s1: "step e s = Some s1" and r1: "run es s1 = Some s'"
    by (auto split: option.splits)
  show ?case using Cons.IH[OF r1] step_deref[OF s1 Cons.prems(2)] by simp
qed

lemma stop_fired_run:
  assumes "reachable s" and "valid s c" and "stop_fired s c" and "run es s = Some s'"
  shows "stop_fired s' c"
  using assms
proof (induction es arbitrary: s)
  case Nil
  then show ?case by simp
next
  case (Cons e es)
  from Cons.prems(4) obtain s1 where s1: "step e s = Some s1" and r1: "run es s1 = Some s'"
    by (auto split: option.splits)
  show ?case
    using Cons.IH[OF reachable_step[OF Cons.prems(1) s1] _ _ r1]
      step_deref[OF s1 Cons.prems(2)] stop_fired_step[OF Cons.prems(1,2,3) s1] by simp
qed

lemma Go_admit_error:
  "Go_admit c s = (Inl e, s') \<longleftrightarrow>
     e = ErrStopping \<and> s' = s \<and> isTopLevel (deref s c) \<and> stop_fired s c"
  by (cases e) (auto simp: Go_admit_def stop_fired_def)

lemma go_begin_call:
  "calls (go_begin c f s) = calls s @ [\<lparr>k_caddy = c, k_fn = f, k_pc = AtGoSelect\<rparr>]"
  by (simp add: go_begin_def Let_def listen_def wg_Add_def go_stmt_def signal_Notify_def)

text \<open>
  Claim C1, as amended. \<^verbatim>\<open>Go\<close> called on a top-level Caddy when stopChan is closed returns
  \<^verbatim>\<open>ErrStopping\<close> and starts no task: so it is for a call that runs alone, and so it is
  whatever other steps are taken between its \<^verbatim>\<open>c.listen()\<close> and its select; a call that has
  returned takes no further step, so its go statement never runs. \<^verbatim>\<open>ErrStopping\<close> is the one
  error value, and the select returns it exactly when the Caddy is top-level and stopChan
  is closed at that read. The other operations return no error value; of them \<^verbatim>\<open>Stop\<close>
  panics exactly when sigChan is closed, \<^verbatim>\<open>Looper\<close> exactly on a negative interval, and
  \<^verbatim>\<open>Wait\<close> does not panic.
\<close>

theorem Go_root_stopping:
  assumes "reachable s" and "valid s c"
  shows "(isTopLevel (deref s c) \<and> stop_fired s c \<longrightarrow>
            Go c f s = (Some ErrStopping, listen c s) \<and> tasks (snd (Go c f s)) = tasks s)
       \<and> (isTopLevel (deref s c) \<and> stop_fired s c \<and> run (CallGo c f # es) s = Some s1
            \<and> k_pc (calls s1 ! length (calls s)) = AtGoSelect \<and> \<not> dead s1 \<longrightarrow>
            step (GoAdmit (length (calls s))) s1 =
              Some (set_cpc (length (calls s)) (GoReturned (Some ErrStopping)) s1))
       \<and> (k < length (calls s) \<and> k_pc (calls s ! k) = GoReturned r \<longrightarrow>
            step (GoAdmit k) s = None \<and> step (GoStart k) s = None
            \<and> (step e s = Some s' \<longrightarrow> k_pc (calls s' ! k) = GoReturned r))
       \<and> (Go_admit c s = (Inl x, s2) \<longleftrightarrow>
            x = ErrStopping \<and> s2 = s \<and> isTopLevel (deref s c) \<and> stop_fired s c)
       \<and> (Stop c s = Panics s2 \<longleftrightarrow> s2 = s \<and> sigChans s (SigChan s c))
       \<and> (Looper c d b f s = Panics s2 \<longleftrightarrow> s2 = listen c s \<and> d < 0)
       \<and> Wait c s \<noteq> Panics s2"
proof -
  have a: "isTopLevel (deref s c) \<and> stop_fired s c \<longrightarrow>
            Go c f s = (Some ErrStopping, listen c s) \<and> tasks (snd (Go c f s)) = tasks s"
    using stop_fired_listen[of c s c]
    by (auto simp: Go_unfold Let_def deref_listen tasks_listen stop_fired_def)
  have b: "step (GoAdmit (length (calls s))) s1 =
              Some (set_cpc (length (calls s)) (GoReturned (Some ErrStopping)) s1)"
    if t: "isTopLevel (deref s c)" and f: "stop_fired s c"
      and r: "run (CallGo c f # es) s = Some s1"
      and p: "k_pc (calls s1 ! length (calls s)) = AtGoSelect" and d: "\<not> dead s1"
  proof -
    let ?k = "length (calls s)"
    from r have r0: "run es (go_begin c f s) = Some s1" and nd: "\<not> dead s"
      using assms(2) by (auto simp: step_def split: option.splits if_splits)
    have k0: "?k < length (calls (go_begin c f s))"
      and c0: "k_caddy (calls (go_begin c f s) ! ?k) = c"
      by (simp_all add: go_begin_call)
    from run_call_keep[OF r0 k0] c0
    have k1: "?k < length (calls s1)" and c1: "k_caddy (calls s1 ! ?k) = c" by simp_all
    from run_deref[OF r assms(2)] have dr: "deref s1 c = deref s c" by simp
    have "stop_fired s1 c" by (rule stop_fired_run[OF assms f r])
    then have "Go_admit c s1 = (Inl ErrStopping, s1)"
      using t dr by (simp add: Go_admit_error)
    then show ?thesis using k1 c1 p d by (simp add: step_def go_admit_def)
  qed
  have c: "k < length (calls s) \<and> k_pc (calls s ! k) = GoReturned r \<longrightarrow>
            step (GoAdmit k) s = None \<and> step (GoStart k) s = None
            \<and> (step e s = Some s' \<longrightarrow> k_pc (calls s' ! k) = GoReturned r)"
    using perform_call_keep[of e s s' k r]
    by (auto simp: step_def go_admit_def go_start_def split: if_splits)
  have d: "Stop c s = Panics s2 \<longleftrightarrow> s2 = s \<and> sigChans s (SigChan s c)"
    by (auto simp: Stop_def chan_send_def SigChan_def split: option.splits)
  have e: "Looper c d b f s = Panics s2 \<longleftrightarrow> s2 = listen c s \<and> d < 0"
    by (auto simp: Looper_def Let_def NewTicker_panics_def)
  have g: "Wait c s \<noteq> Panics s2" by (simp add: Wait_def)
  show ?thesis using a b c d e g Go_admit_error[of c s x s2] by blast
qed

theorem Go_root_stopping_witness:
  "reachable demo_stopped \<and> valid demo_stopped 0 \<and> isTopLevel (deref demo_stopped 0)
   \<and> stop_fired demo_stopped 0
   \<and> Go 0 9 demo_stopped = (Some ErrStopping, listen 0 demo_stopped)
   \<and> tasks (snd (Go 0 9 demo_stopped)) = tasks demo_stopped
   \<and> run [CallGo 0 9, FnEnds Normally 1] demo_stopped = Some demo_refusing
   \<and> length (calls demo_stopped) = 1
   \<and> k_pc (calls demo_refusing ! 1) = AtGoSelect \<and> \<not> dead demo_refusing
   \<and> step (GoAdmit 1) demo_refusing =
       Some (set_cpc 1 (GoReturned (Some ErrStopping)) demo_refusing)
   \<and> k_pc (calls demo_stopped ! 0) = GoReturned None
   \<and> step (GoAdmit 0) demo_stopped = None \<and> step (GoStart 0) demo_stopped = None
   \<and> Go_admit 0 demo_stopped = (Inl ErrStopping, demo_stopped)"
proof -
  have r: "reachable demo_stopped"
    unfolding reachable_def using demo_stopped_run by blast
  have q: "run [CallGo 0 9, FnEnds Normally 1] demo_stopped = Some demo_refusing"
    by (simp add: demo_refusing_def demo_stopped_def eval_defs)
  have k: "length (calls demo_stopped) = 1" "k_pc (calls demo_refusing ! 1) = AtGoSelect"
    "\<not> dead demo_refusing" "k_pc (calls demo_stopped ! 0) = GoReturned None"
    by (simp_all add: demo_refusing_def demo_stopped_def eval_defs)
  show ?thesis
    using Go_root_stopping[OF r demo_stopped_facts(1), where f = 9
        and es = "[FnEnds Normally 1]" and ?s1.0 = demo_refusing and k = 0 and r = None
        and x = ErrStopping and ?s2.0 = demo_stopped]
      r q k demo_stopped_facts(1,2,3)
    by (simp add: tasks_listen)
qed

text \<open>
  The claim as stated fails in its second half. \<^verbatim>\<open>Go\<close> returns \<^verbatim>\<open>ErrStopping\<close> also when it
  was called before the stop had fired: with the channel of \<^verbatim>\<open>SigChan\<close> closed beforehand, the
  listener that \<^verbatim>\<open>c.listen()\<close> starts receives and closes stopChan before \<^verbatim>\<open>Go\<close> reads it. And
  the error is not the only failure of an operation: on the same world \<^verbatim>\<open>Stop\<close> panics, and
  \<^verbatim>\<open>Looper\<close> with a negative interval panics.
\<close>

theorem Go_refused_late:
  "run [CallNewCaddy False, CloseSig 0] init = Some demo_preclosed
   \<and> \<not> stop_fired demo_preclosed 0
   \<and> run [CallGo 0 7, Receive 0, CloseStop 0, GoAdmit 0] demo_preclosed = Some demo_late
   \<and> k_pc (calls demo_late ! 0) = GoReturned (Some ErrStopping)
   \<and> Stop 0 demo_preclosed = Panics demo_preclosed
   \<and> Looper 0 (- 1) False 7 demo_preclosed = Panics (listen 0 demo_preclosed)"
  by (simp add: demo_preclosed_def demo_late_def eval_defs)

end
